theory Spec2Isabelle
  imports Main "HOL-Library.Char_ord" "HOL-Library.List_Lexorder"
begin

section \<open>Python values and the operations the order book side uses\<close>

text \<open>
  The fields of a delta are Python objects: a number, \<open>None\<close> (an unknown price) or a
  string (an order id). Numbers are Python's unbounded integers. A delta, and a stored
  level, is a Python list of such objects.
\<close>

datatype val = VNone | VNum int | VStr string

datatype error = IndexError | TypeError | ValueError

text \<open>\<open>sys.maxsize\<close> of a 64-bit CPython.\<close>

definition maxsize :: int where
  "maxsize = 9223372036854775807"

text \<open>Truthiness, as \<open>if size:\<close> and \<open>a or b\<close> test it.\<close>

fun py_truthy :: "val \<Rightarrow> bool" where
  "py_truthy VNone = False"
| "py_truthy (VNum a) = (a \<noteq> 0)"
| "py_truthy (VStr s) = (s \<noteq> [])"

definition py_or :: "val \<Rightarrow> val \<Rightarrow> val" where
  "py_or a b = (if py_truthy a then a else b)"

fun py_neg :: "val \<Rightarrow> error + val" where
  "py_neg (VNum a) = Inr (VNum (- a))"
| "py_neg _ = Inl TypeError"

fun py_abs :: "val \<Rightarrow> error + val" where
  "py_abs (VNum a) = Inr (VNum \<bar>a\<bar>)"
| "py_abs _ = Inl TypeError"

fun py_add :: "val \<Rightarrow> val \<Rightarrow> error + val" where
  "py_add (VNum a) (VNum b) = Inr (VNum (a + b))"
| "py_add (VStr a) (VStr b) = Inr (VStr (a @ b))"
| "py_add _ _ = Inl TypeError"

text \<open>\<open>a < b\<close>: defined between two numbers and between two strings only.\<close>

fun py_lt :: "val \<Rightarrow> val \<Rightarrow> error + bool" where
  "py_lt (VNum a) (VNum b) = Inr (a < b)"
| "py_lt (VStr a) (VStr b) = Inr (a < b)"
| "py_lt _ _ = Inl TypeError"

text \<open>\<open>size > 0\<close>.\<close>

fun py_gt0 :: "val \<Rightarrow> error + bool" where
  "py_gt0 (VNum a) = Inr (0 < a)"
| "py_gt0 _ = Inl TypeError"

subsection \<open>List operations\<close>

text \<open>
  \<open>xs[i]\<close>, \<open>xs[i] = v\<close> and \<open>del xs[i]\<close> for an index \<open>i \<ge> 0\<close> raise IndexError out
  of range; \<open>xs.insert(i, v)\<close> never raises (an index past the end appends);
  \<open>xs.pop()\<close> raises IndexError on the empty list.
\<close>

definition py_get :: "'a list \<Rightarrow> nat \<Rightarrow> error + 'a" where
  "py_get xs i = (if i < length xs then Inr (xs ! i) else Inl IndexError)"

definition py_set :: "'a list \<Rightarrow> nat \<Rightarrow> 'a \<Rightarrow> error + 'a list" where
  "py_set xs i v = (if i < length xs then Inr (xs[i := v]) else Inl IndexError)"

definition py_del :: "'a list \<Rightarrow> nat \<Rightarrow> error + 'a list" where
  "py_del xs i = (if i < length xs then Inr (take i xs @ drop (Suc i) xs) else Inl IndexError)"

definition py_insert :: "'a list \<Rightarrow> nat \<Rightarrow> 'a \<Rightarrow> 'a list" where
  "py_insert xs i v = take i xs @ v # drop i xs"

definition py_pop :: "'a list \<Rightarrow> error + ('a \<times> 'a list)" where
  "py_pop xs = (if xs = [] then Inl IndexError else Inr (last xs, butlast xs))"

text \<open>
  \<open>xs[i]\<close> for any integer: a negative index counts from the end.
\<close>

definition py_getitem :: "'a list \<Rightarrow> int \<Rightarrow> error + 'a" where
  "py_getitem xs i =
     (if 0 \<le> i then py_get xs (nat i)
      else if - int (length xs) \<le> i then Inr (xs ! nat (int (length xs) + i))
      else Inl IndexError)"

subsection \<open>\<open>bisect.bisect_left\<close>\<close>

text \<open>
  The standard library's binary search:
  \<^verbatim>\<open>
  def bisect_left(a, x, lo=0, hi=None):
      if hi is None: hi = len(a)
      while lo < hi:
          mid = (lo + hi) // 2
          if a[mid] < x: lo = mid + 1
          else: hi = mid
      return lo
  \<close>
  A comparison that raises ends the search with that error.
\<close>

function bisect_loop :: "val list \<Rightarrow> val \<Rightarrow> nat \<Rightarrow> nat \<Rightarrow> error + nat" where
  "bisect_loop a x lo hi =
     (if lo < hi then
        (case py_get a ((lo + hi) div 2) of
           Inl e \<Rightarrow> Inl e
         | Inr v \<Rightarrow>
             (case py_lt v x of
                Inl e \<Rightarrow> Inl e
              | Inr b \<Rightarrow>
                  if b then bisect_loop a x ((lo + hi) div 2 + 1) hi
                  else bisect_loop a x lo ((lo + hi) div 2)))
      else Inr lo)"
  by pat_completeness auto
termination
  by (relation "measure (\<lambda>(a, x, lo, hi). hi - lo)") auto

declare bisect_loop.simps [simp del]

definition bisect_left :: "val list \<Rightarrow> val \<Rightarrow> error + nat" where
  "bisect_left a x = bisect_loop a x 0 (length a)"

section \<open>The order book side\<close>

text \<open>
  The five classes of the module; \<open>Asks\<close>/\<open>Bids\<close> subclasses only fix \<open>side\<close>
  (\<open>True\<close> for bids, \<open>False\<close> for asks).
\<close>

datatype variant = Absolute | Counted | Indexed | Incremental | IncrementalIndexed

text \<open>
  The object: \<open>self_list\<close> is the list the object itself is (the stored levels),
  \<open>self_index\<close> is \<open>_index\<close>, \<open>self_hashmap\<close> is \<open>_hashmap\<close> (empty and unused outside
  the indexed classes), \<open>self_depth\<close> is \<open>_depth\<close>, \<open>self_n\<close> is \<open>_n\<close>.
\<close>

record order_book_side =
  self_list :: "val list list"
  self_index :: "val list"
  self_hashmap :: "val \<rightharpoonup> val"
  self_depth :: int
  self_n :: int
  self_side :: bool
  self_class :: variant

text \<open>
  A method call either returns, leaving the object in a new state, or raises, leaving
  the object in the state it had reached when the exception left the method.
\<close>

type_synonym result = "(error \<times> order_book_side) + order_book_side"

definition attempt :: "error + 'a \<Rightarrow> order_book_side \<Rightarrow> ('a \<Rightarrow> result) \<Rightarrow> result" where
  "attempt r self f = (case r of Inl e \<Rightarrow> Inl (e, self) | Inr x \<Rightarrow> f x)"

text \<open>The state the object is in after a call, returned or raised.\<close>

fun state_after :: "result \<Rightarrow> order_book_side" where
  "state_after (Inl (e, self)) = self"
| "state_after (Inr self) = self"

text \<open>\<open>index_price = -price if self.side else price\<close>\<close>

definition signed_price :: "order_book_side \<Rightarrow> val \<Rightarrow> error + val" where
  "signed_price self price = (if self_side self then py_neg price else Inr price)"

text \<open>\<open>index < len(self._index) and self._index[index] == index_price\<close>\<close>

definition index_matches :: "order_book_side \<Rightarrow> nat \<Rightarrow> val \<Rightarrow> bool" where
  "index_matches self index index_price =
     (index < length (self_index self) \<and> self_index self ! index = index_price)"

text \<open>
  \<open>del self._index[index]; del self[index]\<close>, shared by every deleting branch.
\<close>

definition del_both :: "order_book_side \<Rightarrow> nat \<Rightarrow> (order_book_side \<Rightarrow> result) \<Rightarrow> result" where
  "del_both self index f =
     attempt (py_del (self_index self) index) self (\<lambda>ix.
     attempt (py_del (self_list self) index) (self\<lparr>self_index := ix\<rparr>) (\<lambda>ls.
       f (self\<lparr>self_index := ix, self_list := ls\<rparr>)))"

text \<open>\<open>self._index.insert(index, index_price); self.insert(index, delta)\<close>\<close>

definition insert_both :: "order_book_side \<Rightarrow> nat \<Rightarrow> val \<Rightarrow> val list \<Rightarrow> order_book_side" where
  "insert_both self index index_price delta =
     self\<lparr>self_index := py_insert (self_index self) index index_price,
          self_list := py_insert (self_list self) index delta\<rparr>"

subsection \<open>\<open>OrderBookSide.storeArray\<close>\<close>

definition storeArray :: "order_book_side \<Rightarrow> val list \<Rightarrow> result" where
  "storeArray self delta =
     attempt (py_get delta 0) self (\<lambda>price.
     attempt (py_get delta 1) self (\<lambda>size.
     attempt (signed_price self price) self (\<lambda>index_price.
     attempt (bisect_left (self_index self) index_price) self (\<lambda>index.
       if py_truthy size then
         if index_matches self index index_price then
           attempt (py_get (self_list self) index) self (\<lambda>level.
           attempt (py_set level 1 size) self (\<lambda>level'.
             Inr (self\<lparr>self_list := (self_list self)[index := level']\<rparr>)))
         else Inr (insert_both self index index_price delta)
       else if index_matches self index index_price then
         del_both self index Inr
       else Inr self))))"

subsection \<open>\<open>CountedOrderBookSide.storeArray\<close>\<close>

definition Counted_storeArray :: "order_book_side \<Rightarrow> val list \<Rightarrow> result" where
  "Counted_storeArray self delta =
     attempt (py_get delta 0) self (\<lambda>price.
     attempt (py_get delta 1) self (\<lambda>size.
     attempt (py_get delta 2) self (\<lambda>count.
     attempt (signed_price self price) self (\<lambda>index_price.
     attempt (bisect_left (self_index self) index_price) self (\<lambda>index.
       if py_truthy size \<and> py_truthy count then
         if index_matches self index index_price then
           attempt (py_get (self_list self) index) self (\<lambda>level.
           attempt (py_set level 1 size) self (\<lambda>level1.
           attempt (py_set level1 2 count)
                   (self\<lparr>self_list := (self_list self)[index := level1]\<rparr>) (\<lambda>level2.
             Inr (self\<lparr>self_list := (self_list self)[index := level2]\<rparr>))))
         else Inr (insert_both self index index_price delta)
       else if index_matches self index index_price then
         del_both self index Inr
       else Inr self)))))"

subsection \<open>\<open>IndexedOrderBookSide.storeArray\<close>\<close>

text \<open>
  \<open>index_price\<close> of the indexed classes: \<open>None\<close> when the price is \<open>None\<close>.
\<close>

definition indexed_price :: "order_book_side \<Rightarrow> val \<Rightarrow> error + val" where
  "indexed_price self price = (if price \<noteq> VNone then signed_price self price else Inr VNone)"

text \<open>
  The common tail "insert new price level":
  \<open>self._hashmap[order_id] = index_price\<close>, then the bisection and the two inserts.
\<close>

definition insert_new :: "order_book_side \<Rightarrow> val \<Rightarrow> val \<Rightarrow> val list \<Rightarrow> result" where
  "insert_new self order_id index_price delta =
     (let self1 = self\<lparr>self_hashmap := (self_hashmap self)(order_id \<mapsto> index_price)\<rparr> in
      attempt (bisect_left (self_index self1) index_price) self1 (\<lambda>index.
        Inr (insert_both self1 index index_price delta)))"

text \<open>
  The common last branch: the order id is known and the level is removed by its
  mapped key, then \<open>del self._hashmap[order_id]\<close>.
\<close>

definition remove_known :: "order_book_side \<Rightarrow> val \<Rightarrow> val \<Rightarrow> result" where
  "remove_known self order_id old_price =
     attempt (bisect_left (self_index self) old_price) self (\<lambda>index.
     del_both self index (\<lambda>self1.
       Inr (self1\<lparr>self_hashmap := (self_hashmap self1)(order_id := None)\<rparr>)))"

definition Indexed_storeArray :: "order_book_side \<Rightarrow> val list \<Rightarrow> result" where
  "Indexed_storeArray self delta =
     attempt (py_get delta 0) self (\<lambda>price.
     attempt (indexed_price self price) self (\<lambda>index_price.
     attempt (py_get delta 1) self (\<lambda>size.
     attempt (py_get delta 2) self (\<lambda>order_id.
       if py_truthy size then
         (case self_hashmap self order_id of
            Some old_price \<Rightarrow>
              (let index_price = py_or index_price old_price in
               attempt (py_abs index_price) self (\<lambda>a.
               attempt (py_set delta 0 a) self (\<lambda>delta.
                 if index_price = old_price then
                   attempt (bisect_left (self_index self) index_price) self (\<lambda>index.
                   attempt (py_set (self_index self) index index_price) self (\<lambda>ix.
                   attempt (py_set (self_list self) index delta)
                           (self\<lparr>self_index := ix\<rparr>) (\<lambda>ls.
                     Inr (self\<lparr>self_index := ix, self_list := ls\<rparr>))))
                 else
                   attempt (bisect_left (self_index self) old_price) self (\<lambda>old_index.
                   del_both self old_index (\<lambda>self1.
                     insert_new self1 order_id index_price delta)))))
          | None \<Rightarrow> insert_new self order_id index_price delta)
       else
         (case self_hashmap self order_id of
            Some old_price \<Rightarrow> remove_known self order_id old_price
          | None \<Rightarrow> Inr self)))))"

text \<open>\<open>IndexedOrderBookSide.remove_index\<close>\<close>

definition Indexed_remove_index :: "order_book_side \<Rightarrow> val list \<Rightarrow> result" where
  "Indexed_remove_index self order =
     attempt (py_get order 2) self (\<lambda>order_id.
       if self_hashmap self order_id \<noteq> None
       then Inr (self\<lparr>self_hashmap := (self_hashmap self)(order_id := None)\<rparr>)
       else Inr self)"

subsection \<open>\<open>IncrementalOrderBookSide.storeArray\<close>\<close>

definition Incremental_storeArray :: "order_book_side \<Rightarrow> val list \<Rightarrow> result" where
  "Incremental_storeArray self delta =
     attempt (py_get delta 0) self (\<lambda>price.
     attempt (py_get delta 1) self (\<lambda>size.
     attempt (signed_price self price) self (\<lambda>index_price.
     attempt (bisect_left (self_index self) index_price) self (\<lambda>index.
       let index_exists = index_matches self index index_price in
       attempt (if index_exists
                then (case py_get (self_list self) index of
                        Inl e \<Rightarrow> Inl e
                      | Inr level \<Rightarrow>
                          (case py_get level 1 of
                             Inl e \<Rightarrow> Inl e
                           | Inr old_size \<Rightarrow> py_add size old_size))
                else Inr size) self (\<lambda>size.
       attempt (py_gt0 size) self (\<lambda>positive.
         if positive then
           if index_exists then
             attempt (py_get (self_list self) index) self (\<lambda>level.
             attempt (py_set level 1 size) self (\<lambda>level'.
               Inr (self\<lparr>self_list := (self_list self)[index := level']\<rparr>)))
           else Inr (insert_both self index index_price delta)
         else if index_matches self index index_price then
           del_both self index Inr
         else Inr self))))))"

subsection \<open>\<open>IncrementalIndexedOrderBookSide.storeArray\<close>\<close>

text \<open>
  The first block of the method ("handling for incremental stuff") changes only the
  locals \<open>index_price\<close>, \<open>old_price\<close>, \<open>index\<close>, \<open>size\<close> and the delta; it is run
  when \<open>size > 0 and contains_index\<close>. The locals \<open>old_price\<close> and \<open>index\<close> start as
  \<open>None\<close>.
\<close>

definition incremental_block ::
  "order_book_side \<Rightarrow> val list \<Rightarrow> val \<Rightarrow> val \<Rightarrow> val
     \<Rightarrow> error + (val \<times> val \<times> nat option \<times> val \<times> val list)" where
  "incremental_block self delta index_price size_in old_price =
     (let index_price = py_or index_price old_price in
      case bisect_left (self_index self) index_price of
        Inl e \<Rightarrow> Inl e
      | Inr index \<Rightarrow>
      (case py_get (self_list self) index of
        Inl e \<Rightarrow> Inl e
      | Inr level \<Rightarrow>
      (case py_get level 1 of
        Inl e \<Rightarrow> Inl e
      | Inr level_size \<Rightarrow>
      (case py_add size_in level_size of
        Inl e \<Rightarrow> Inl e
      | Inr new_size \<Rightarrow>
      (case py_abs index_price of
        Inl e \<Rightarrow> Inl e
      | Inr a \<Rightarrow>
      (case py_set delta 0 a of
        Inl e \<Rightarrow> Inl e
      | Inr delta \<Rightarrow>
      (case py_set delta 1 new_size of
        Inl e \<Rightarrow> Inl e
      | Inr delta \<Rightarrow> Inr (index_price, old_price, Some index, new_size, delta))))))))"

definition IncrementalIndexed_storeArray :: "order_book_side \<Rightarrow> val list \<Rightarrow> result" where
  "IncrementalIndexed_storeArray self delta =
     attempt (py_get delta 0) self (\<lambda>price.
     attempt (indexed_price self price) self (\<lambda>index_price.
     attempt (py_get delta 1) self (\<lambda>size.
     attempt (py_get delta 2) self (\<lambda>order_id.
     let contains_index = (self_hashmap self order_id \<noteq> None) in
     attempt (py_gt0 size) self (\<lambda>positive.
     attempt (if positive \<and> contains_index
              then incremental_block self delta index_price size
                     (the (self_hashmap self order_id))
              else Inr (index_price, VNone, None, size, delta)) self
       (\<lambda>(index_price, old_price, index, size, delta).
     attempt (py_gt0 size) self (\<lambda>positive.
       if positive then
         if contains_index then
           if index_price = old_price then
             (case index of
                None \<Rightarrow> Inl (TypeError, self)
              | Some index \<Rightarrow>
                  attempt (py_set (self_index self) index index_price) self (\<lambda>ix.
                  attempt (py_set (self_list self) index delta)
                          (self\<lparr>self_index := ix\<rparr>) (\<lambda>ls.
                    Inr (self\<lparr>self_index := ix, self_list := ls\<rparr>))))
           else
             attempt (bisect_left (self_index self) old_price) self (\<lambda>old_index.
             del_both self old_index (\<lambda>self1.
               insert_new self1 order_id index_price delta))
         else insert_new self order_id index_price delta
       else if contains_index then
         remove_known self order_id (the (self_hashmap self order_id))
       else Inr self)))))))"

subsection \<open>Dispatch on the class\<close>

definition self_storeArray :: "order_book_side \<Rightarrow> val list \<Rightarrow> result" where
  "self_storeArray self delta =
     (case self_class self of
        Absolute \<Rightarrow> storeArray self delta
      | Counted \<Rightarrow> Counted_storeArray self delta
      | Indexed \<Rightarrow> Indexed_storeArray self delta
      | Incremental \<Rightarrow> Incremental_storeArray self delta
      | IncrementalIndexed \<Rightarrow> IncrementalIndexed_storeArray self delta)"

text \<open>\<open>remove_index\<close> is \<open>pass\<close> in the base class; the indexed classes override it.\<close>

definition remove_index :: "order_book_side \<Rightarrow> val list \<Rightarrow> result" where
  "remove_index self order =
     (case self_class self of
        Indexed \<Rightarrow> Indexed_remove_index self order
      | IncrementalIndexed \<Rightarrow> Indexed_remove_index self order
      | _ \<Rightarrow> Inr self)"

subsection \<open>Construction\<close>

text \<open>
  \<open>self._depth = depth or sys.maxsize\<close>: a depth of \<open>None\<close> or \<open>0\<close> is unlimited.
  The deltas are replayed through the class's own \<open>storeArray\<close>.
\<close>

definition new_side :: "variant \<Rightarrow> bool \<Rightarrow> int option \<Rightarrow> order_book_side" where
  "new_side cls sd depth =
     \<lparr>self_list = [], self_index = [], self_hashmap = Map.empty,
      self_depth = (case depth of None \<Rightarrow> maxsize | Some d \<Rightarrow> if d \<noteq> 0 then d else maxsize),
      self_n = maxsize, self_side = sd, self_class = cls\<rparr>"

fun store_all :: "order_book_side \<Rightarrow> val list list \<Rightarrow> result" where
  "store_all self [] = Inr self"
| "store_all self (delta # deltas) =
     (case self_storeArray self delta of
        Inl e \<Rightarrow> Inl e
      | Inr self1 \<Rightarrow> store_all self1 deltas)"

definition init :: "variant \<Rightarrow> bool \<Rightarrow> val list list \<Rightarrow> int option \<Rightarrow> result" where
  "init cls sd deltas depth = store_all (new_side cls sd depth) deltas"

subsection \<open>The read operations\<close>

text \<open>
  \<open>__len__\<close> returns \<open>min(length, self._n)\<close>; \<open>len()\<close> raises ValueError when that is
  negative. \<open>__iter__\<close> is \<open>itertools.islice(iterator, self._n)\<close>, which accepts a stop
  between 0 and \<open>sys.maxsize\<close> only; each call builds a new iterator over the stored
  list, and what it yields is given here as a list. \<open>__getitem__\<close> with an integer is
  \<open>list.__getitem__\<close> (the slice branch is not modelled).
\<close>

definition len :: "order_book_side \<Rightarrow> error + int" where
  "len self =
     (let stored = int (length (self_list self)) in
      if min stored (self_n self) < 0 then Inl ValueError
      else Inr (min stored (self_n self)))"

definition iter :: "order_book_side \<Rightarrow> error + val list list" where
  "iter self =
     (if 0 \<le> self_n self \<and> self_n self \<le> maxsize
      then Inr (take (nat (self_n self)) (self_list self))
      else Inl ValueError)"

definition getitem :: "order_book_side \<Rightarrow> int \<Rightarrow> error + val list" where
  "getitem self item = py_getitem (self_list self) item"

subsection \<open>\<open>OrderBookSide.limit\<close>\<close>

text \<open>
  One round of the loop is \<open>self.remove_index(self.pop()); self._index.pop()\<close>; the
  loop runs \<open>range(difference)\<close>, that is \<open>difference\<close> times when it is positive and
  not at all otherwise.
\<close>

fun limit_loop :: "nat \<Rightarrow> order_book_side \<Rightarrow> result" where
  "limit_loop 0 self = Inr self"
| "limit_loop (Suc k) self =
     attempt (py_pop (self_list self)) self (\<lambda>(order, ls).
       (case remove_index (self\<lparr>self_list := ls\<rparr>) order of
          Inl e \<Rightarrow> Inl e
        | Inr self1 \<Rightarrow>
            attempt (py_pop (self_index self1)) self1 (\<lambda>(key, ix).
              limit_loop k (self1\<lparr>self_index := ix\<rparr>))))"

definition limit :: "order_book_side \<Rightarrow> int option \<Rightarrow> result" where
  "limit self n =
     (let self1 = self\<lparr>self_n := (case n of None \<Rightarrow> maxsize | Some k \<Rightarrow> k)\<rparr> in
      attempt (len self1) self1 (\<lambda>visible.
        limit_loop (nat (visible - self_depth self1)) self1))"

section \<open>Notions used to state the properties\<close>

text \<open>
  The number of fields each class reads from a delta: \<open>delta[0]\<close> and \<open>delta[1]\<close>,
  and \<open>delta[2]\<close> in the counted and the indexed classes.
\<close>

fun required_fields :: "variant \<Rightarrow> nat" where
  "required_fields Absolute = 2"
| "required_fields Incremental = 2"
| "required_fields Counted = 3"
| "required_fields Indexed = 3"
| "required_fields IncrementalIndexed = 3"

text \<open>
  The keys of an index that holds numbers only, and the two orders the index can be
  in: ascending, and strictly ascending (ascending with no key twice).
\<close>

fun is_number :: "val \<Rightarrow> bool" where
  "is_number (VNum a) = True"
| "is_number _ = False"

fun num_of :: "val \<Rightarrow> int" where
  "num_of (VNum a) = a"
| "num_of _ = 0"

definition ascending :: "val list \<Rightarrow> bool" where
  "ascending ix \<longleftrightarrow> list_all is_number ix \<and> sorted (map num_of ix)"

definition strictly_ascending :: "val list \<Rightarrow> bool" where
  "strictly_ascending ix \<longleftrightarrow> list_all is_number ix \<and> sorted_wrt (<) (map num_of ix)"

text \<open>
  The leftmost position of an index whose key is not below \<open>key\<close> (its length when
  every key is below).
\<close>

definition insertion_point :: "val list \<Rightarrow> int \<Rightarrow> nat" where
  "insertion_point ix key = length (takeWhile (\<lambda>k. num_of k < key) ix)"

text \<open>
  Example objects: \<open>IndexedAsks\<close> holding the one order \<open>[100, 5, 'A']\<close>, and the same
  book as an \<open>IncrementalIndexedAsks\<close>.
\<close>

definition indexed_asks_A :: order_book_side where
  "indexed_asks_A =
     \<lparr>self_list = [[VNum 100, VNum 5, VStr ''A'']], self_index = [VNum 100],
      self_hashmap = [VStr ''A'' \<mapsto> VNum 100],
      self_depth = maxsize, self_n = maxsize, self_side = False, self_class = Indexed\<rparr>"

definition incremental_indexed_asks_A :: order_book_side where
  "incremental_indexed_asks_A = indexed_asks_A\<lparr>self_class := IncrementalIndexed\<rparr>"

text \<open>
  Example objects: \<open>Asks([[8, 1], [9, 1]])\<close>, and the same after \<open>limit(1)\<close>.
\<close>

definition asks_8_9 :: order_book_side where
  "asks_8_9 =
     \<lparr>self_list = [[VNum 8, VNum 1], [VNum 9, VNum 1]], self_index = [VNum 8, VNum 9],
      self_hashmap = Map.empty,
      self_depth = maxsize, self_n = maxsize, self_side = False, self_class = Absolute\<rparr>"

definition asks_8_9_limit_1 :: order_book_side where
  "asks_8_9_limit_1 = asks_8_9\<lparr>self_n := 1\<rparr>"

text \<open>
  In the indexed classes every stored level came through \<open>delta[2]\<close> and so has an
  order id field; \<open>remove_index\<close> reads it.
\<close>

definition has_ids :: "order_book_side \<Rightarrow> bool" where
  "has_ids self \<longleftrightarrow>
     (self_class self = Indexed \<or> self_class self = IncrementalIndexed \<longrightarrow>
        list_all (\<lambda>level. 3 \<le> length level) (self_list self))"

text \<open>
  Example objects: \<open>Asks([[10, 1], [9, 1]], 1)\<close>, a book of depth 1 that holds two
  levels, and \<open>Asks([[8, 1], [9, 1], [10, 1]], 2)\<close>.
\<close>

definition asks_depth_1 :: order_book_side where
  "asks_depth_1 =
     \<lparr>self_list = [[VNum 9, VNum 1], [VNum 10, VNum 1]], self_index = [VNum 9, VNum 10],
      self_hashmap = Map.empty,
      self_depth = 1, self_n = maxsize, self_side = False, self_class = Absolute\<rparr>"

definition asks_depth_2 :: order_book_side where
  "asks_depth_2 =
     \<lparr>self_list = [[VNum 8, VNum 1], [VNum 9, VNum 1], [VNum 10, VNum 1]],
      self_index = [VNum 8, VNum 9, VNum 10],
      self_hashmap = Map.empty,
      self_depth = 2, self_n = maxsize, self_side = False, self_class = Absolute\<rparr>"

text \<open>
  Example objects: \<open>IndexedAsks([[100, 5, 'A'], [100, 7, 'B']])\<close>, two orders at one
  price, and the object that \<open>storeArray([100, 0, 'A'])\<close> then leaves.
\<close>

definition indexed_asks_A_B :: order_book_side where
  "indexed_asks_A_B =
     \<lparr>self_list = [[VNum 100, VNum 7, VStr ''B''], [VNum 100, VNum 5, VStr ''A'']],
      self_index = [VNum 100, VNum 100],
      self_hashmap = [VStr ''A'' \<mapsto> VNum 100, VStr ''B'' \<mapsto> VNum 100],
      self_depth = maxsize, self_n = maxsize, self_side = False, self_class = Indexed\<rparr>"

definition indexed_asks_A_deleted :: order_book_side where
  "indexed_asks_A_deleted =
     \<lparr>self_list = [[VNum 100, VNum 5, VStr ''A'']],
      self_index = [VNum 100],
      self_hashmap = [VStr ''A'' \<mapsto> VNum 100, VStr ''B'' \<mapsto> VNum 100](VStr ''A'' := None),
      self_depth = maxsize, self_n = maxsize, self_side = False, self_class = Indexed\<rparr>"

text \<open>
  The sort key of a price: \<open>-price\<close> on the bid side, \<open>price\<close> on the ask side.
\<close>

definition price_key :: "order_book_side \<Rightarrow> int \<Rightarrow> int" where
  "price_key self price = (if self_side self then - price else price)"

text \<open>The delta carries an order id (\<open>delta[2]\<close>) that is in the map.\<close>

definition known_id :: "order_book_side \<Rightarrow> val list \<Rightarrow> bool" where
  "known_id self delta =
     (case py_get delta 2 of Inl e \<Rightarrow> False | Inr order_id \<Rightarrow> self_hashmap self order_id \<noteq> None)"

text \<open>
  The levels are keyed by the index: every stored level has a price and a size field,
  and the key beside it in the index is the signed price of the level.
\<close>

definition keyed :: "order_book_side \<Rightarrow> bool" where
  "keyed self \<longleftrightarrow>
     list_all2 (\<lambda>level key. 2 \<le> length level \<and> signed_price self (level ! 0) = Inr key)
       (self_list self) (self_index self)"

text \<open>
  The Absolute strategy in the words of the specification (4.2): compute the key from
  price and side and locate the position; a nonzero size overwrites the size of the
  level with that key in place, or else inserts the new level at the position; a zero
  size removes the level with that key, or else changes nothing.
\<close>

definition absolute_apply :: "order_book_side \<Rightarrow> int \<Rightarrow> int \<Rightarrow> order_book_side" where
  "absolute_apply self price sz =
     (let key = price_key self price;
          position = insertion_point (self_index self) key;
          matching = (VNum key \<in> set (self_index self))
      in if sz \<noteq> 0 \<and> matching then
           self\<lparr>self_list := (self_list self)
                   [position := (self_list self ! position)[1 := VNum sz]]\<rparr>
         else if sz \<noteq> 0 then
           self\<lparr>self_list := take position (self_list self) @ [VNum price, VNum sz]
                                # drop position (self_list self),
                self_index := take position (self_index self) @ VNum key
                                # drop position (self_index self)\<rparr>
         else if matching then
           self\<lparr>self_list := take position (self_list self)
                                @ drop (Suc position) (self_list self),
                self_index := take position (self_index self)
                                @ drop (Suc position) (self_index self)\<rparr>
         else self)"

text \<open>Every stored level has a numeric size.\<close>

definition sized :: "order_book_side \<Rightarrow> bool" where
  "sized self \<longleftrightarrow> list_all (\<lambda>level. is_number (level ! 1)) (self_list self)"

text \<open>
  The Incremental strategy in the words of the specification (4.5): the effective size
  is the size of the level with the delta's key plus the delta's size, or the delta's
  size itself when there is no such level; a positive effective size overwrites the
  level's size in place, or else inserts the delta at the position; otherwise the
  matching level is removed, or else nothing changes.
\<close>

definition incremental_apply :: "order_book_side \<Rightarrow> int \<Rightarrow> int \<Rightarrow> order_book_side" where
  "incremental_apply self price sz =
     (let key = price_key self price;
          position = insertion_point (self_index self) key;
          matching = (VNum key \<in> set (self_index self));
          effective = (if matching then sz + num_of (self_list self ! position ! 1) else sz)
      in if 0 < effective \<and> matching then
           self\<lparr>self_list := (self_list self)
                   [position := (self_list self ! position)[1 := VNum effective]]\<rparr>
         else if 0 < effective then
           self\<lparr>self_list := take position (self_list self) @ [VNum price, VNum sz]
                                # drop position (self_list self),
                self_index := take position (self_index self) @ VNum key
                                # drop position (self_index self)\<rparr>
         else if matching then
           self\<lparr>self_list := take position (self_list self)
                                @ drop (Suc position) (self_list self),
                self_index := take position (self_index self)
                                @ drop (Suc position) (self_index self)\<rparr>
         else self)"

text \<open>
  Example objects: \<open>IncrementalAsks()\<close> after \<open>[10, 5]\<close> and \<open>[10, -3]\<close>, and the
  empty \<open>IncrementalAsks()\<close>.
\<close>

definition incremental_asks_10_2 :: order_book_side where
  "incremental_asks_10_2 =
     \<lparr>self_list = [[VNum 10, VNum 2]], self_index = [VNum 10], self_hashmap = Map.empty,
      self_depth = maxsize, self_n = maxsize, self_side = False, self_class = Incremental\<rparr>"

definition incremental_asks_empty :: order_book_side where
  "incremental_asks_empty = new_side Incremental False None"

text \<open>
  Example object: \<open>IncrementalIndexedBids\<close> holding the one order \<open>[100, 5, 'A']\<close>,
  whose key is \<open>-100\<close>.
\<close>

definition incremental_indexed_bids_A :: order_book_side where
  "incremental_indexed_bids_A =
     \<lparr>self_list = [[VNum 100, VNum 5, VStr ''A'']], self_index = [VNum (- 100)],
      self_hashmap = [VStr ''A'' \<mapsto> VNum (- 100)],
      self_depth = maxsize, self_n = maxsize, self_side = True,
      self_class = IncrementalIndexed\<rparr>"

section \<open>Properties\<close>

subsection \<open>Binary search on an ascending index\<close>

lemma length_takeWhile_eq:
  assumes "r \<le> length ks" "\<forall>i<r. P (ks ! i)" "r < length ks \<longrightarrow> \<not> P (ks ! r)"
  shows "length (takeWhile P ks) = r"
proof -
  have "takeWhile P ks = take r ks"
    using assms by (intro takeWhile_eq_take_P_nth) auto
  with assms(1) show ?thesis by simp
qed

lemma bisect_loop_num:
  assumes "sorted ks"
  shows "lo \<le> hi \<Longrightarrow> hi \<le> length ks \<Longrightarrow> \<forall>i<lo. ks ! i < x \<Longrightarrow>
         \<forall>i. hi \<le> i \<longrightarrow> i < length ks \<longrightarrow> x \<le> ks ! i \<Longrightarrow>
         bisect_loop (map VNum ks) (VNum x) lo hi = Inr (length (takeWhile (\<lambda>k. k < x) ks))"
proof (induction "map VNum ks" "VNum x" lo hi rule: bisect_loop.induct)
  case (1 lo hi)
  let ?mid = "(lo + hi) div 2"
  show ?case
  proof (cases "lo < hi")
    case False
    with 1 have "lo = hi" by simp
    with 1 have "length (takeWhile (\<lambda>k. k < x) ks) = lo"
      by (intro length_takeWhile_eq) (auto simp: not_less)
    with False show ?thesis by (simp add: bisect_loop.simps)
  next
    case True
    then have mid: "lo \<le> ?mid" "?mid < hi" by auto
    with 1 have len: "?mid < length ks" by simp
    then have get: "py_get (map VNum ks) ?mid = Inr (VNum (ks ! ?mid))"
      by (simp add: py_get_def)
    show ?thesis
    proof (cases "ks ! ?mid < x")
      case lt: True
      have "\<forall>i<?mid + 1. ks ! i < x"
      proof (intro allI impI)
        fix i assume "i < ?mid + 1"
        then have "ks ! i \<le> ks ! ?mid"
          using assms len by (simp add: sorted_nth_mono)
        with lt show "ks ! i < x" by simp
      qed
      with 1(1)[OF True get _ lt] 1(3-) mid True get lt
      show ?thesis by (subst bisect_loop.simps) simp
    next
      case ge: False
      have "\<forall>i. ?mid \<le> i \<longrightarrow> i < length ks \<longrightarrow> x \<le> ks ! i"
      proof (intro allI impI)
        fix i assume "?mid \<le> i" "i < length ks"
        then have "ks ! ?mid \<le> ks ! i"
          using assms by (simp add: sorted_nth_mono)
        with ge show "x \<le> ks ! i" by simp
      qed
      with 1(2)[OF True get _ ge] 1(3-) mid True get ge
      show ?thesis by (subst bisect_loop.simps) simp
    qed
  qed
qed

lemma num_index: "list_all is_number ix \<Longrightarrow> map VNum (map num_of ix) = ix"
proof (induction ix)
  case Nil
  show ?case by simp
next
  case (Cons k ix)
  then show ?case by (cases k) simp_all
qed

lemma strictly_ascending_ascending: "strictly_ascending ix \<Longrightarrow> ascending ix"
  by (simp add: strictly_ascending_def ascending_def strict_sorted_iff)

lemma bisect_left_ascending:
  assumes "ascending ix"
  shows "bisect_left ix (VNum x) = Inr (insertion_point ix x)"
proof -
  define ks where "ks = map num_of ix"
  from assms have ix: "ix = map VNum ks" and s: "sorted ks"
    using num_index [of ix] by (simp_all add: ascending_def ks_def)
  have "bisect_loop (map VNum ks) (VNum x) 0 (length ks)
          = Inr (length (takeWhile (\<lambda>k. k < x) ks))"
    using s by (intro bisect_loop_num) simp_all
  moreover have "takeWhile (\<lambda>k. k < x) ks = map num_of (takeWhile (\<lambda>k. num_of k < x) ix)"
    by (simp add: ks_def takeWhile_map comp_def)
  ultimately show ?thesis
    by (simp add: bisect_left_def insertion_point_def ix)
qed

lemma insertion_point_le: "insertion_point ix x \<le> length ix"
  by (simp add: insertion_point_def length_takeWhile_le)

lemma below_insertion_point:
  "k \<in> set (take (insertion_point ix x) ix) \<Longrightarrow> num_of k < x"
  unfolding insertion_point_def takeWhile_eq_take [symmetric] by (auto dest: set_takeWhileD)

lemma sorted_dropWhile_ge:
  fixes ks :: "int list"
  shows "sorted ks \<Longrightarrow> k \<in> set (dropWhile (\<lambda>k. k < x) ks) \<Longrightarrow> x \<le> k"
proof (induction ks)
  case Nil
  then show ?case by simp
next
  case (Cons a ks)
  then show ?case by (auto split: if_splits)
qed

lemma above_insertion_point:
  assumes "ascending ix" "k \<in> set (drop (insertion_point ix x) ix)"
  shows "x \<le> num_of k"
proof -
  from assms(2) have "k \<in> set (dropWhile (\<lambda>k. num_of k < x) ix)"
    by (simp add: insertion_point_def dropWhile_eq_drop)
  then have "num_of k \<in> set (dropWhile (\<lambda>k. k < x) (map num_of ix))"
    by (auto simp: dropWhile_map comp_def)
  with assms(1) show ?thesis
    by (auto simp: ascending_def dest: sorted_dropWhile_ge)
qed

text \<open>The test the code makes after the search finds the key exactly when it is stored.\<close>

lemma match_iff_stored:
  assumes "ascending ix"
  shows "(insertion_point ix x < length ix \<and> ix ! insertion_point ix x = VNum x)
           \<longleftrightarrow> VNum x \<in> set ix"
proof
  assume "insertion_point ix x < length ix \<and> ix ! insertion_point ix x = VNum x"
  then show "VNum x \<in> set ix" by (metis nth_mem)
next
  let ?i = "insertion_point ix x"
  assume mem: "VNum x \<in> set ix"
  have "VNum x \<notin> set (take ?i ix)"
    using below_insertion_point [of "VNum x" ix x] by auto
  with mem have d: "VNum x \<in> set (drop ?i ix)"
    by (metis Un_iff append_take_drop_id set_append)
  then have lt: "?i < length ix" by (cases "?i < length ix") auto
  from assms have "list_all is_number ix" by (simp add: ascending_def)
  with lt obtain y where y: "ix ! ?i = VNum y"
    by (metis is_number.elims(2) list_all_length)
  have "ix ! ?i \<in> set (drop ?i ix)" using lt
    by (metis Cons_nth_drop_Suc list.set_intros(1))
  with assms y have "x \<le> y" using above_insertion_point by fastforce
  moreover have "y \<le> x"
  proof -
    from d obtain j where j: "j < length (drop ?i ix)" "drop ?i ix ! j = VNum x"
      by (metis in_set_conv_nth)
    from assms have "sorted (map num_of ix)" by (simp add: ascending_def)
    then have "map num_of ix ! ?i \<le> map num_of ix ! (?i + j)"
      using j(1) by (intro sorted_nth_mono) auto
    with j lt y show ?thesis by auto
  qed
  ultimately show "?i < length ix \<and> ix ! ?i = VNum x" using lt y by simp
qed

subsection \<open>Malformed deltas\<close>

lemma short_delta_cases:
  "length (delta :: val list) < 3 \<Longrightarrow>
     delta = [] \<or> (\<exists>a. delta = [a]) \<or> (\<exists>a b. delta = [a, b])"
  by (cases delta; simp; (cases "tl delta"; simp)?; (cases "tl (tl delta)"; auto)?)

text \<open>
  Claim C9. In every class, \<open>storeArray\<close> on a delta with fewer fields than the class
  reads raises (IndexError at the missing field, or TypeError at the price before it),
  and the object is exactly as it was before the call: every field is read before the
  first mutation.
\<close>

theorem malformed_delta_no_mutation:
  assumes "length delta < required_fields (self_class self)"
  shows "\<exists>e. self_storeArray self delta = Inl (e, self)"
proof (cases "self_class self")
  case Absolute
  with assms have "delta = [] \<or> (\<exists>a. delta = [a])" by (cases delta) auto
  with Absolute show ?thesis
    by (auto simp: self_storeArray_def storeArray_def attempt_def py_get_def)
next
  case Incremental
  with assms have "delta = [] \<or> (\<exists>a. delta = [a])" by (cases delta) auto
  with Incremental show ?thesis
    by (auto simp: self_storeArray_def Incremental_storeArray_def attempt_def py_get_def)
next
  case Counted
  with assms have "delta = [] \<or> (\<exists>a. delta = [a]) \<or> (\<exists>a b. delta = [a, b])"
    by (simp add: short_delta_cases)
  with Counted show ?thesis
    by (auto simp: self_storeArray_def Counted_storeArray_def attempt_def py_get_def)
next
  case Indexed
  with assms have "delta = [] \<or> (\<exists>a. delta = [a]) \<or> (\<exists>a b. delta = [a, b])"
    by (simp add: short_delta_cases)
  with Indexed show ?thesis
    by (auto simp: self_storeArray_def Indexed_storeArray_def attempt_def py_get_def
             split: sum.splits)
next
  case IncrementalIndexed
  with assms have "delta = [] \<or> (\<exists>a. delta = [a]) \<or> (\<exists>a b. delta = [a, b])"
    by (simp add: short_delta_cases)
  with IncrementalIndexed show ?thesis
    by (auto simp: self_storeArray_def IncrementalIndexed_storeArray_def attempt_def py_get_def
             split: sum.splits)
qed

theorem malformed_delta_no_mutation_witness:
  "length [VNum 1, VNum 5] < required_fields (self_class (new_side Counted False None)) \<and>
   (\<exists>e. self_storeArray (new_side Counted False None) [VNum 1, VNum 5]
          = Inl (e, new_side Counted False None))"
  using malformed_delta_no_mutation [of "[VNum 1, VNum 5]" "new_side Counted False None"]
  by (simp add: new_side_def)

subsection \<open>The read operations\<close>

text \<open>
  Claim C3, as stated, fails: after \<open>Asks([[8, 1], [9, 1]])\<close> and \<open>limit(1)\<close> the
  length is \<open>min(2, 1) = 1\<close>, and the integer index 1, which lies between the visible
  and the stored length, returns the hidden level \<open>[9, 1]\<close>.
\<close>

theorem getitem_returns_hidden_level:
  "init Absolute False [[VNum 8, VNum 1], [VNum 9, VNum 1]] None = Inr asks_8_9
   \<and> limit asks_8_9 (Some 1) = Inr asks_8_9_limit_1
   \<and> len asks_8_9_limit_1 = Inr 1
   \<and> length (self_list asks_8_9_limit_1) = 2
   \<and> getitem asks_8_9_limit_1 1 = Inr [VNum 9, VNum 1]
   \<and> self_list asks_8_9_limit_1 ! 1 = [VNum 9, VNum 1]"
  by (simp add: init_def new_side_def self_storeArray_def storeArray_def attempt_def
        py_get_def py_set_def py_insert_def signed_price_def index_matches_def
        insert_both_def bisect_left_def bisect_loop.simps asks_8_9_def asks_8_9_limit_1_def
        limit_def len_def maxsize_def getitem_def py_getitem_def)

text \<open>
  Claim C3, amended. For a visible length \<open>n\<close> that \<open>islice\<close> accepts
  (\<open>0 \<le> n \<le> sys.maxsize\<close>) and stored length \<open>s\<close>: the length is \<open>min(s, n)\<close>;
  iteration yields the first \<open>min(s, n)\<close> stored levels, in stored order, and being a
  function of the object alone it yields them again on every call; indexing with an
  integer \<open>0 \<le> i < s\<close> is not truncated and returns the stored level at \<open>i\<close>, hidden
  or not.
\<close>

theorem read_operations:
  assumes "0 \<le> self_n self" and "self_n self \<le> maxsize"
  shows "len self = Inr (min (int (length (self_list self))) (self_n self))
       \<and> iter self
           = Inr (take (nat (min (int (length (self_list self))) (self_n self)))
                    (self_list self))
       \<and> (0 \<le> i \<and> i < int (length (self_list self)) \<longrightarrow>
            getitem self i = Inr (self_list self ! nat i))"
proof (intro conjI impI)
  show "len self = Inr (min (int (length (self_list self))) (self_n self))"
    using assms by (simp add: len_def Let_def)
next
  have "take (nat (min (int (length (self_list self))) (self_n self))) (self_list self)
          = take (nat (self_n self)) (self_list self)"
    using assms by (simp add: min_def)
  then show "iter self
      = Inr (take (nat (min (int (length (self_list self))) (self_n self))) (self_list self))"
    using assms by (simp add: iter_def)
next
  assume "0 \<le> i \<and> i < int (length (self_list self))"
  then have "nat i < length (self_list self)" by linarith
  with \<open>0 \<le> i \<and> i < int (length (self_list self))\<close>
  show "getitem self i = Inr (self_list self ! nat i)"
    by (simp add: getitem_def py_getitem_def py_get_def)
qed

theorem read_operations_witness:
  "0 \<le> self_n asks_8_9_limit_1 \<and> self_n asks_8_9_limit_1 \<le> maxsize
   \<and> len asks_8_9_limit_1 = Inr 1
   \<and> iter asks_8_9_limit_1 = Inr [[VNum 8, VNum 1]]
   \<and> (0::int) \<le> 1 \<and> 1 < int (length (self_list asks_8_9_limit_1))
   \<and> getitem asks_8_9_limit_1 1 = Inr [VNum 9, VNum 1]"
  using read_operations [of asks_8_9_limit_1 1]
  by (simp add: asks_8_9_limit_1_def asks_8_9_def maxsize_def)

subsection \<open>Updates of different fields commute\<close>

lemma update_order [simp]:
  "self_list_update f (self_index_update g self) = self_index_update g (self_list_update f self)"
  "self_list_update f (self_hashmap_update h self)
     = self_hashmap_update h (self_list_update f self)"
  "self_list_update f (self_n_update k self) = self_n_update k (self_list_update f self)"
  "self_index_update g (self_hashmap_update h self)
     = self_hashmap_update h (self_index_update g self)"
  "self_index_update g (self_n_update k self) = self_n_update k (self_index_update g self)"
  "self_hashmap_update h (self_n_update k self)
     = self_n_update k (self_hashmap_update h self)"
  by (cases self; simp)+

subsection \<open>The trimming loop\<close>

lemma remove_index_hashmap_only:
  assumes "self_class self = Indexed \<or> self_class self = IncrementalIndexed
             \<longrightarrow> 3 \<le> length order"
  shows "\<exists>h. remove_index self order = Inr (self\<lparr>self_hashmap := h\<rparr>)"
proof (cases "self_class self = Indexed \<or> self_class self = IncrementalIndexed")
  case True
  with assms have "py_get order 2 = Inr (order ! 2)" by (simp add: py_get_def)
  with True show ?thesis
    by (cases "self_hashmap self (order ! 2)")
       (auto simp: remove_index_def Indexed_remove_index_def attempt_def
             intro: exI [of _ "self_hashmap self"])
next
  case False
  then have "remove_index self order = Inr self"
    by (cases "self_class self") (simp_all add: remove_index_def)
  then show ?thesis by (auto intro: exI [of _ "self_hashmap self"])
qed

lemma limit_loop_returns:
  assumes "k \<le> length (self_list self)"
    and "length (self_index self) = length (self_list self)"
    and "has_ids self"
  shows "\<exists>h. limit_loop k self
           = Inr (self\<lparr>self_list := take (length (self_list self) - k) (self_list self),
                       self_index := take (length (self_list self) - k) (self_index self),
                       self_hashmap := h\<rparr>)"
  using assms
proof (induction k arbitrary: self)
  case 0
  then show ?case by (auto intro: exI [of _ "self_hashmap self"])
next
  case (Suc k)
  let ?ls = "self_list self" and ?ix = "self_index self"
  from Suc.prems have ne: "?ls \<noteq> []" "?ix \<noteq> []" by auto
  let ?s0 = "self\<lparr>self_list := butlast ?ls\<rparr>"
  have "self_class ?s0 = Indexed \<or> self_class ?s0 = IncrementalIndexed
          \<longrightarrow> 3 \<le> length (last ?ls)"
    using Suc.prems(3) ne(1) by (auto simp: has_ids_def list_all_iff)
  then obtain h where h: "remove_index ?s0 (last ?ls) = Inr (?s0\<lparr>self_hashmap := h\<rparr>)"
    using remove_index_hashmap_only by blast
  let ?s1 = "self\<lparr>self_list := butlast ?ls, self_index := butlast ?ix, self_hashmap := h\<rparr>"
  have step: "limit_loop (Suc k) self = limit_loop k ?s1"
    using ne h by (simp add: attempt_def py_pop_def)
  have "has_ids ?s1"
    using Suc.prems(3) by (auto simp: has_ids_def list_all_iff dest: in_set_butlastD)
  with Suc.prems have "\<exists>h'. limit_loop k ?s1
      = Inr (?s1\<lparr>self_list := take (length (self_list ?s1) - k) (self_list ?s1),
                 self_index := take (length (self_list ?s1) - k) (self_index ?s1),
                 self_hashmap := h'\<rparr>)"
    by (intro Suc.IH) simp_all
  then obtain h' where "limit_loop k ?s1
      = Inr (?s1\<lparr>self_list := take (length ?ls - Suc k) (butlast ?ls),
                 self_index := take (length ?ls - Suc k) (butlast ?ix),
                 self_hashmap := h'\<rparr>)"
    by auto
  moreover have "take (length ?ls - Suc k) (butlast ?ls) = take (length ?ls - Suc k) ?ls"
    using ne by (simp add: take_butlast)
  moreover have "take (length ?ls - Suc k) (butlast ?ix) = take (length ?ls - Suc k) ?ix"
    using ne Suc.prems(2) by (simp add: take_butlast)
  ultimately show ?case using step by auto
qed

lemma limit_loop_none:
  "int (length (self_list self)) \<le> d \<Longrightarrow> limit_loop (nat (int (length (self_list self)) - d)) self = Inr self"
  by simp

lemma limit_loop_add:
  "limit_loop (a + b) self
     = (case limit_loop a self of Inl e \<Rightarrow> Inl e | Inr self1 \<Rightarrow> limit_loop b self1)"
proof (induction a arbitrary: self)
  case 0
  show ?case by simp
next
  case (Suc a)
  then show ?case
    by (auto simp: attempt_def split: sum.splits prod.splits)
qed

lemma remove_index_n:
  "remove_index (self\<lparr>self_n := m\<rparr>) order
     = (case remove_index self order of
          Inl (e, s) \<Rightarrow> Inl (e, s\<lparr>self_n := m\<rparr>)
        | Inr s \<Rightarrow> Inr (s\<lparr>self_n := m\<rparr>))"
  by (cases "self_class self")
     (auto simp: remove_index_def Indexed_remove_index_def attempt_def split: sum.splits)

lemma limit_loop_n:
  "limit_loop k (self\<lparr>self_n := m\<rparr>)
     = (case limit_loop k self of
          Inl (e, s) \<Rightarrow> Inl (e, s\<lparr>self_n := m\<rparr>)
        | Inr s \<Rightarrow> Inr (s\<lparr>self_n := m\<rparr>))"
proof (induction k arbitrary: self)
  case 0
  show ?case by simp
next
  case (Suc k)
  show ?case
  proof (cases "py_pop (self_list self)")
    case (Inl e)
    then show ?thesis by (simp add: attempt_def)
  next
    case (Inr p)
    obtain order ls where p: "p = (order, ls)" by (cases p)
    have r: "remove_index (self\<lparr>self_list := ls, self_n := m\<rparr>) order
            = (case remove_index (self\<lparr>self_list := ls\<rparr>) order of
                 Inl (e, s) \<Rightarrow> Inl (e, s\<lparr>self_n := m\<rparr>)
               | Inr s \<Rightarrow> Inr (s\<lparr>self_n := m\<rparr>))"
      using remove_index_n [where self = "self\<lparr>self_list := ls\<rparr>"] by simp
    show ?thesis
    proof (cases "remove_index (self\<lparr>self_list := ls\<rparr>) order")
      case (Inl es)
      with Inr p r show ?thesis by (cases es) (simp add: attempt_def)
    next
      case s1: (Inr self1)
      show ?thesis
      proof (cases "py_pop (self_index self1)")
        case (Inl e)
        with Inr p r s1 show ?thesis by (simp add: attempt_def)
      next
        case q: (Inr q)
        obtain key ix where "q = (key, ix)" by (cases q)
        with Inr p r s1 q Suc.IH [of "self1\<lparr>self_index := ix\<rparr>"] show ?thesis
          by (simp add: attempt_def)
      qed
    qed
  qed
qed

subsection \<open>The depth cap\<close>

text \<open>
  Claim C1, as stated, fails: \<open>storeArray\<close> never trims, in any class; only \<open>limit\<close>
  does. \<open>Asks([[10, 1], [9, 1]], 1)\<close> is constructed with depth 1 and holds two levels.
\<close>

theorem storeArray_does_not_trim:
  "init Absolute False [[VNum 10, VNum 1], [VNum 9, VNum 1]] (Some 1) = Inr asks_depth_1
   \<and> self_depth asks_depth_1 = 1
   \<and> length (self_list asks_depth_1) = 2"
  by (simp add: init_def new_side_def self_storeArray_def storeArray_def attempt_def
        py_get_def py_set_def py_insert_def signed_price_def index_matches_def
        insert_both_def bisect_left_def bisect_loop.simps asks_depth_1_def maxsize_def)

text \<open>
  Claim C1, amended. For an object with a depth \<open>d \<ge> 1\<close> (a depth of 0 given to the
  constructor means unlimited) whose index is as long as its list, a call \<open>limit()\<close>
  returns and leaves the first \<open>d\<close> stored levels and keys: at most \<open>d\<close> levels, and
  on an ascending index no retained key is above a dropped one.
\<close>

theorem limit_trims_to_depth:
  assumes depth: "0 < self_depth self"
    and parallel: "length (self_index self) = length (self_list self)"
    and size: "int (length (self_list self)) \<le> maxsize"
    and ids: "has_ids self"
  shows "\<exists>self'. limit self None = Inr self'
          \<and> self_list self' = take (nat (self_depth self)) (self_list self)
          \<and> self_index self' = take (nat (self_depth self)) (self_index self)
          \<and> int (length (self_list self')) \<le> self_depth self
          \<and> (ascending (self_index self) \<longrightarrow>
               (\<forall>k \<in> set (self_index self').
                  \<forall>k' \<in> set (drop (nat (self_depth self)) (self_index self)).
                    num_of k \<le> num_of k'))"
proof -
  let ?L = "length (self_list self)" and ?d = "nat (self_depth self)"
  let ?k = "nat (int ?L - self_depth self)"
  have k: "?k \<le> ?L" using depth by linarith
  have keep: "?L - ?k = min ?L ?d" using depth by linarith
  have "take (?L - ?k) (self_list self) = take ?d (self_list self)"
    and "take (?L - ?k) (self_index self) = take ?d (self_index self)"
    unfolding keep using parallel by (simp_all add: min_def)
  with limit_loop_returns [OF k parallel ids] obtain h where
    loop: "limit_loop ?k self
             = Inr (self\<lparr>self_list := take ?d (self_list self),
                         self_index := take ?d (self_index self),
                         self_hashmap := h\<rparr>)"
    by auto
  let ?r = "self\<lparr>self_list := take ?d (self_list self),
                  self_index := take ?d (self_index self),
                  self_hashmap := h, self_n := maxsize\<rparr>"
  have "limit self None = Inr ?r"
    using size loop by (simp add: limit_def len_def attempt_def Let_def limit_loop_n min_def)
  moreover have "int (length (self_list ?r)) \<le> self_depth self"
    using depth by simp
  moreover have "ascending (self_index self) \<longrightarrow>
      (\<forall>k \<in> set (self_index ?r). \<forall>k' \<in> set (drop ?d (self_index self)). num_of k \<le> num_of k')"
  proof
    assume "ascending (self_index self)"
    then have "sorted (map num_of (take ?d (self_index self) @ drop ?d (self_index self)))"
      by (simp add: ascending_def)
    then show "\<forall>k \<in> set (self_index ?r). \<forall>k' \<in> set (drop ?d (self_index self)).
                 num_of k \<le> num_of k'"
      unfolding map_append sorted_append by simp
  qed
  ultimately show ?thesis by simp
qed

theorem limit_trims_to_depth_witness:
  "0 < self_depth asks_depth_2
   \<and> length (self_index asks_depth_2) = length (self_list asks_depth_2)
   \<and> int (length (self_list asks_depth_2)) \<le> maxsize
   \<and> has_ids asks_depth_2
   \<and> ascending (self_index asks_depth_2)
   \<and> (\<exists>self'. limit asks_depth_2 None = Inr self'
         \<and> self_list self' = [[VNum 8, VNum 1], [VNum 9, VNum 1]]
         \<and> self_index self' = [VNum 8, VNum 9])
   \<and> 0 < self_depth (indexed_asks_A_B\<lparr>self_depth := 1\<rparr>)
   \<and> self_class (indexed_asks_A_B\<lparr>self_depth := 1\<rparr>) = Indexed
   \<and> has_ids (indexed_asks_A_B\<lparr>self_depth := 1\<rparr>)
   \<and> (\<exists>self'. limit (indexed_asks_A_B\<lparr>self_depth := 1\<rparr>) None = Inr self'
         \<and> self_list self' = [[VNum 100, VNum 7, VStr ''B'']]
         \<and> self_index self' = [VNum 100])"
  using limit_trims_to_depth [of asks_depth_2]
    limit_trims_to_depth [of "indexed_asks_A_B\<lparr>self_depth := 1\<rparr>"]
  by (auto simp: asks_depth_2_def indexed_asks_A_B_def maxsize_def has_ids_def ascending_def)

subsection \<open>The visible length is a view\<close>

text \<open>
  Claim C6. On an object with depth \<open>d \<ge> 1\<close> whose index is as long as its list,
  \<open>limit(k)\<close> followed by \<open>limit()\<close> has the result of \<open>limit()\<close> alone, for every
  integer \<open>k\<close> (for \<open>k < 0\<close> the first call raises ValueError after setting the visible
  length, and the second call resets it). \<open>limit(k)\<close> itself keeps every level within
  the depth. When the stored length does not exceed the depth, the two calls return the
  object with its levels, its index and its order-id map as they were, and the visible
  length unlimited.
\<close>

theorem limit_then_unlimit:
  assumes depth: "0 < self_depth self"
    and parallel: "length (self_index self) = length (self_list self)"
    and size: "int (length (self_list self)) \<le> maxsize"
    and ids: "has_ids self"
  shows "limit (state_after (limit self (Some k))) None = limit self None
       \<and> take (nat (self_depth self)) (self_list (state_after (limit self (Some k))))
           = take (nat (self_depth self)) (self_list self)
       \<and> (int (length (self_list self)) \<le> self_depth self \<longrightarrow>
            limit (state_after (limit self (Some k))) None = Inr (self\<lparr>self_n := maxsize\<rparr>))"
proof -
  let ?L = "length (self_list self)" and ?d = "nat (self_depth self)"
  have none: "limit self None
      = (case limit_loop (nat (int ?L - self_depth self)) self of
           Inl (e, s) \<Rightarrow> Inl (e, s\<lparr>self_n := maxsize\<rparr>)
         | Inr s \<Rightarrow> Inr (s\<lparr>self_n := maxsize\<rparr>))"
    using size by (simp add: limit_def len_def attempt_def Let_def limit_loop_n min_def)
  have small: "int ?L \<le> self_depth self \<longrightarrow> limit self None = Inr (self\<lparr>self_n := maxsize\<rparr>)"
    using none by simp
  show ?thesis
  proof (cases "k < 0")
    case True
    then have "limit self (Some k) = Inl (ValueError, self\<lparr>self_n := k\<rparr>)"
      by (simp add: limit_def len_def attempt_def Let_def min_def)
    then have after: "state_after (limit self (Some k)) = self\<lparr>self_n := k\<rparr>" by simp
    have "limit (self\<lparr>self_n := k\<rparr>) None = limit self None"
      by (simp add: limit_def)
    with after small show ?thesis by simp
  next
    case False
    define a where "a = nat (min (int ?L) k - self_depth self)"
    have a: "a \<le> ?L" unfolding a_def using depth by linarith
    from limit_loop_returns [OF a parallel ids] obtain h where
      loop: "limit_loop a self
               = Inr (self\<lparr>self_list := take (?L - a) (self_list self),
                           self_index := take (?L - a) (self_index self),
                           self_hashmap := h\<rparr>)"
      by auto
    let ?s = "self\<lparr>self_list := take (?L - a) (self_list self),
                    self_index := take (?L - a) (self_index self),
                    self_hashmap := h\<rparr>"
    have "len (self\<lparr>self_n := k\<rparr>) = Inr (min (int ?L) k)"
      using False by (simp add: len_def Let_def)
    then have "limit self (Some k) = Inr (?s\<lparr>self_n := k\<rparr>)"
      using loop by (simp add: limit_def attempt_def Let_def limit_loop_n a_def)
    then have after: "state_after (limit self (Some k)) = ?s\<lparr>self_n := k\<rparr>" by simp
    define b where "b = nat (int (?L - a) - self_depth self)"
    have sum: "nat (int ?L - self_depth self) = a + b"
      unfolding a_def b_def using depth by linarith
    have "len (?s\<lparr>self_n := maxsize\<rparr>) = Inr (int (?L - a))"
      using size by (auto simp: len_def Let_def min_def)
    then have "limit (?s\<lparr>self_n := k\<rparr>) None
        = (case limit_loop b ?s of
             Inl (e, s) \<Rightarrow> Inl (e, s\<lparr>self_n := maxsize\<rparr>)
           | Inr s \<Rightarrow> Inr (s\<lparr>self_n := maxsize\<rparr>))"
      by (simp add: limit_def attempt_def Let_def limit_loop_n b_def)
    also have "\<dots> = limit self None"
      unfolding none sum limit_loop_add loop by simp
    finally have eq: "limit (state_after (limit self (Some k))) None = limit self None"
      using after by simp
    have "?d \<le> ?L - a" if "?d \<le> ?L"
      using that depth unfolding a_def by linarith
    moreover have "a = 0" if "\<not> ?d \<le> ?L"
      using that depth unfolding a_def by linarith
    ultimately have "take ?d (take (?L - a) (self_list self)) = take ?d (self_list self)"
      by (cases "?d \<le> ?L") (simp_all add: min_def)
    with eq after small show ?thesis by simp
  qed
qed

theorem limit_then_unlimit_witness:
  "0 < self_depth asks_8_9
   \<and> length (self_index asks_8_9) = length (self_list asks_8_9)
   \<and> int (length (self_list asks_8_9)) \<le> maxsize
   \<and> has_ids asks_8_9
   \<and> int (length (self_list asks_8_9)) \<le> self_depth asks_8_9
   \<and> limit (state_after (limit asks_8_9 (Some 1))) None = Inr asks_8_9
   \<and> self_class indexed_asks_A_B = Indexed
   \<and> has_ids indexed_asks_A_B
   \<and> int (length (self_list indexed_asks_A_B)) \<le> self_depth indexed_asks_A_B
   \<and> limit (state_after (limit indexed_asks_A_B (Some 1))) None = Inr indexed_asks_A_B"
  using limit_then_unlimit [of asks_8_9 1, THEN conjunct2, THEN conjunct2]
    limit_then_unlimit [of indexed_asks_A_B 1, THEN conjunct2, THEN conjunct2]
  by (simp add: asks_8_9_def indexed_asks_A_B_def maxsize_def has_ids_def)

subsection \<open>Two orders at one price\<close>

text \<open>
  Claim C2, as stated, fails in the indexed classes: an order id that is not in the
  map is inserted at the bisection point with no test for an equal key, so two orders
  at one price give two equal keys.
\<close>

theorem indexed_duplicate_keys:
  "init Indexed False [[VNum 100, VNum 5, VStr ''A''], [VNum 100, VNum 7, VStr ''B'']] None
     = Inr indexed_asks_A_B
   \<and> self_index indexed_asks_A_B = [VNum 100, VNum 100]
   \<and> \<not> strictly_ascending (self_index indexed_asks_A_B)"
  by (simp add: init_def new_side_def self_storeArray_def Indexed_storeArray_def attempt_def
        py_get_def py_insert_def indexed_price_def signed_price_def insert_new_def
        insert_both_def bisect_left_def bisect_loop.simps indexed_asks_A_B_def maxsize_def
        strictly_ascending_def Let_def)

text \<open>
  Claim C4 against the code. From the book with the orders A and B at price 100,
  \<open>storeArray([100, 0, 'A'])\<close> finds the level to delete by bisecting for A's key; the
  leftmost level with that key is B's. The call returns with B's level deleted and A's
  id removed from the map: A has a level and no map entry, B a map entry and no level.
\<close>

theorem indexed_delete_removes_other_order:
  "init Indexed False [[VNum 100, VNum 5, VStr ''A''], [VNum 100, VNum 7, VStr ''B''],
                       [VNum 100, VNum 0, VStr ''A'']] None
     = Inr indexed_asks_A_deleted
   \<and> Indexed_storeArray indexed_asks_A_B [VNum 100, VNum 0, VStr ''A'']
     = Inr indexed_asks_A_deleted
   \<and> self_list indexed_asks_A_deleted = [[VNum 100, VNum 5, VStr ''A'']]
   \<and> self_hashmap indexed_asks_A_deleted (VStr ''A'') = None
   \<and> self_hashmap indexed_asks_A_deleted (VStr ''B'') = Some (VNum 100)"
  by (simp add: init_def new_side_def self_storeArray_def Indexed_storeArray_def attempt_def
        py_get_def py_del_def py_insert_def indexed_price_def signed_price_def insert_new_def
        insert_both_def remove_known_def del_both_def bisect_left_def bisect_loop.simps
        indexed_asks_A_B_def indexed_asks_A_deleted_def maxsize_def Let_def)

subsection \<open>An incremental move of a known order\<close>

text \<open>
  Claim C5 against the code. In \<open>IncrementalIndexedAsks([[100, 5, 'A']])\<close>, the delta
  \<open>[105, 2, 'A']\<close> moves the known order A to a key above every stored key. The first
  block reads \<open>self[index][1]\<close> at the bisection point of the new key, which is past the
  end of the list: the call raises IndexError and nothing is moved.
\<close>

theorem incremental_indexed_move_raises:
  "init IncrementalIndexed False [[VNum 100, VNum 5, VStr ''A'']] None
     = Inr incremental_indexed_asks_A
   \<and> IncrementalIndexed_storeArray incremental_indexed_asks_A [VNum 105, VNum 2, VStr ''A'']
     = Inl (IndexError, incremental_indexed_asks_A)"
  by (simp add: init_def new_side_def self_storeArray_def IncrementalIndexed_storeArray_def
        incremental_block_def attempt_def py_get_def py_insert_def indexed_price_def
        signed_price_def insert_new_def insert_both_def bisect_left_def bisect_loop.simps
        incremental_indexed_asks_A_def indexed_asks_A_def maxsize_def py_or_def Let_def)

subsection \<open>Inserting, deleting and overwriting keeps the index in order\<close>

lemma ascending_parts:
  assumes "ascending ix"
  shows "list_all is_number (take i ix)" "list_all is_number (drop i ix)"
    "sorted (map num_of (take i ix))" "sorted (map num_of (drop i ix))"
proof -
  from assms have n: "list_all is_number ix" and s: "sorted (map num_of ix)"
    by (simp_all add: ascending_def)
  from n show "list_all is_number (take i ix)" "list_all is_number (drop i ix)"
    by (auto simp: list_all_iff dest: in_set_takeD in_set_dropD)
  from s have "sorted (take i (map num_of ix))" "sorted (drop i (map num_of ix))"
    by simp_all
  then show "sorted (map num_of (take i ix))" "sorted (map num_of (drop i ix))"
    by (simp_all add: take_map drop_map)
qed

lemma strictly_ascending_parts:
  assumes "strictly_ascending ix"
  shows "sorted_wrt (<) (map num_of (take i ix))" "sorted_wrt (<) (map num_of (drop i ix))"
proof -
  from assms have "sorted_wrt (<) (map num_of ix)" by (simp add: strictly_ascending_def)
  then have "sorted_wrt (<) (take i (map num_of ix))" "sorted_wrt (<) (drop i (map num_of ix))"
    by simp_all
  then show "sorted_wrt (<) (map num_of (take i ix))" "sorted_wrt (<) (map num_of (drop i ix))"
    by (simp_all add: take_map drop_map)
qed

lemma ascending_insert:
  assumes "ascending ix"
  shows "ascending (py_insert ix (insertion_point ix x) (VNum x))"
  using ascending_parts [OF assms, of "insertion_point ix x"]
    below_insertion_point [of _ ix x] above_insertion_point [OF assms, of _ x]
  by (fastforce simp: ascending_def py_insert_def sorted_append)

lemma strictly_ascending_insert:
  assumes "strictly_ascending ix" and new: "VNum x \<notin> set ix"
  shows "strictly_ascending (py_insert ix (insertion_point ix x) (VNum x))"
proof -
  let ?i = "insertion_point ix x"
  have asc: "ascending ix" using assms(1) by (rule strictly_ascending_ascending)
  have above: "x < num_of k" if "k \<in> set (drop ?i ix)" for k
  proof -
    from that have "x \<le> num_of k" using above_insertion_point [OF asc] by blast
    moreover from that have "k \<in> set ix" by (rule in_set_dropD)
    with asc new have "num_of k \<noteq> x"
      by (cases k) (auto simp: ascending_def list_all_iff)
    ultimately show ?thesis by simp
  qed
  have below: "num_of k < x" if "k \<in> set (take ?i ix)" for k
    using that by (rule below_insertion_point)
  show ?thesis
    using ascending_parts(1,2) [OF asc, of ?i] strictly_ascending_parts [OF assms(1), of ?i]
      above below
    by (fastforce simp: strictly_ascending_def py_insert_def sorted_wrt_append)
qed

lemma ascending_delete:
  assumes "ascending ix"
  shows "ascending (take i ix @ drop (Suc i) ix)"
proof -
  from assms have "sorted (map num_of (take i ix @ drop i ix))"
    by (simp add: ascending_def)
  then have "\<forall>a \<in> set (take i ix). \<forall>b \<in> set (drop i ix). num_of a \<le> num_of b"
    unfolding map_append sorted_append by simp
  moreover have "set (drop (Suc i) ix) \<subseteq> set (drop i ix)"
    by (simp add: set_drop_subset_set_drop)
  ultimately show ?thesis
    using ascending_parts [OF assms, of i] ascending_parts [OF assms, of "Suc i"]
    by (auto simp: ascending_def sorted_append)
qed

lemma strictly_ascending_delete:
  assumes "strictly_ascending ix"
  shows "strictly_ascending (take i ix @ drop (Suc i) ix)"
proof -
  have asc: "ascending ix" using assms by (rule strictly_ascending_ascending)
  from assms have "sorted_wrt (<) (map num_of (take i ix @ drop i ix))"
    by (simp add: strictly_ascending_def)
  then have "\<forall>a \<in> set (take i ix). \<forall>b \<in> set (drop i ix). num_of a < num_of b"
    unfolding map_append sorted_wrt_append by simp
  moreover have "set (drop (Suc i) ix) \<subseteq> set (drop i ix)"
    by (simp add: set_drop_subset_set_drop)
  ultimately show ?thesis
    using ascending_parts(1,2) [OF asc, of i] ascending_parts(1,2) [OF asc, of "Suc i"]
      strictly_ascending_parts [OF assms, of i] strictly_ascending_parts [OF assms, of "Suc i"]
    by (auto simp: strictly_ascending_def sorted_wrt_append)
qed

lemma ascending_overwrite:
  assumes "ascending ix" and "insertion_point ix x < length ix"
  shows "ascending (ix[insertion_point ix x := VNum x])"
proof -
  let ?i = "insertion_point ix x"
  have "ix[?i := VNum x] = take ?i ix @ VNum x # drop (Suc ?i) ix"
    using assms(2) by (simp add: upd_conv_take_nth_drop)
  moreover have "set (drop (Suc ?i) ix) \<subseteq> set (drop ?i ix)"
    by (simp add: set_drop_subset_set_drop)
  ultimately show ?thesis
    using ascending_parts [OF assms(1), of ?i] ascending_parts [OF assms(1), of "Suc ?i"]
      below_insertion_point [of _ ix x] above_insertion_point [OF assms(1), of _ x]
    by (fastforce simp: ascending_def sorted_append)
qed

subsection \<open>The index after \<open>storeArray\<close>\<close>

lemma signed_price_num [simp]:
  "signed_price self (VNum p) = Inr (VNum (price_key self p))"
  by (simp add: signed_price_def price_key_def)

lemma attempt_Inr: "attempt (Inr x) self f = f x"
  by (simp add: attempt_def)

lemma del_both_index:
  assumes del: "\<And>ix i. P ix \<Longrightarrow> P (take i ix @ drop (Suc i) ix)"
    and "P (self_index self)"
    and "\<And>s. P (self_index s) \<Longrightarrow> P (self_index (state_after (f s)))"
  shows "P (self_index (state_after (del_both self i f)))"
  using assms
  by (auto simp: del_both_def attempt_def py_del_def split: sum.splits)

lemma no_match_not_stored:
  assumes "ascending (self_index self)"
    and "\<not> index_matches self (insertion_point (self_index self) x) (VNum x)"
  shows "VNum x \<notin> set (self_index self)"
  using assms match_iff_stored [of "self_index self" x] by (simp add: index_matches_def)

lemma storeArray_index:
  assumes "strictly_ascending (self_index self)"
  shows "strictly_ascending (self_index (state_after (storeArray self (VNum p # rest))))"
proof -
  have asc: "ascending (self_index self)"
    using assms by (rule strictly_ascending_ascending)
  let ?key = "price_key self p"
  let ?i = "insertion_point (self_index self) ?key"
  have b: "bisect_left (self_index self) (VNum ?key) = Inr ?i"
    using asc by (rule bisect_left_ascending)
  have ins: "strictly_ascending (py_insert (self_index self) ?i (VNum ?key))"
    if "\<not> index_matches self ?i (VNum ?key)"
    using assms no_match_not_stored [OF asc that] by (rule strictly_ascending_insert)
  have del: "strictly_ascending (self_index (state_after (del_both self ?i Inr)))"
    using assms by (intro del_both_index [where P = strictly_ascending])
                   (simp_all add: strictly_ascending_delete)
  show ?thesis
    using assms b ins del
    by (auto simp: storeArray_def attempt_def py_get_def py_set_def insert_both_def
             split: sum.splits)
qed

lemma Counted_storeArray_index:
  assumes "strictly_ascending (self_index self)"
  shows "strictly_ascending
           (self_index (state_after (Counted_storeArray self (VNum p # rest))))"
proof -
  have asc: "ascending (self_index self)"
    using assms by (rule strictly_ascending_ascending)
  let ?key = "price_key self p"
  let ?i = "insertion_point (self_index self) ?key"
  have b: "bisect_left (self_index self) (VNum ?key) = Inr ?i"
    using asc by (rule bisect_left_ascending)
  have ins: "strictly_ascending (py_insert (self_index self) ?i (VNum ?key))"
    if "\<not> index_matches self ?i (VNum ?key)"
    using assms no_match_not_stored [OF asc that] by (rule strictly_ascending_insert)
  have del: "strictly_ascending (self_index (state_after (del_both self ?i Inr)))"
    using assms by (intro del_both_index [where P = strictly_ascending])
                   (simp_all add: strictly_ascending_delete)
  show ?thesis
    using assms b ins del
    by (auto simp: Counted_storeArray_def attempt_def py_get_def py_set_def insert_both_def
             split: sum.splits)
qed

lemma Incremental_storeArray_index:
  assumes "strictly_ascending (self_index self)"
  shows "strictly_ascending
           (self_index (state_after (Incremental_storeArray self (VNum p # rest))))"
proof -
  have asc: "ascending (self_index self)"
    using assms by (rule strictly_ascending_ascending)
  let ?key = "price_key self p"
  let ?i = "insertion_point (self_index self) ?key"
  have b: "bisect_left (self_index self) (VNum ?key) = Inr ?i"
    using asc by (rule bisect_left_ascending)
  have ins: "strictly_ascending (py_insert (self_index self) ?i (VNum ?key))"
    if "\<not> index_matches self ?i (VNum ?key)"
    using assms no_match_not_stored [OF asc that] by (rule strictly_ascending_insert)
  have del: "strictly_ascending (self_index (state_after (del_both self ?i Inr)))"
    using assms by (intro del_both_index [where P = strictly_ascending])
                   (simp_all add: strictly_ascending_delete)
  show ?thesis
    using assms b ins del
    by (auto simp: Incremental_storeArray_def attempt_def py_get_def py_set_def insert_both_def
             Let_def split: sum.splits)
qed

lemma insert_new_index:
  assumes "ascending (self_index self)"
  shows "ascending (self_index (state_after (insert_new self order_id (VNum k) delta)))"
  using assms
  by (simp add: insert_new_def Let_def attempt_def bisect_left_ascending insert_both_def
        ascending_insert)

lemma remove_known_index:
  assumes "ascending (self_index self)"
  shows "ascending (self_index (state_after (remove_known self order_id old_price)))"
proof (cases "bisect_left (self_index self) old_price")
  case (Inl e)
  with assms show ?thesis by (simp add: remove_known_def attempt_def)
next
  case (Inr index)
  have "ascending (self_index (state_after (del_both self index (\<lambda>self1.
          Inr (self1\<lparr>self_hashmap := (self_hashmap self1)(order_id := None)\<rparr>)))))"
    using assms by (intro del_both_index [where P = ascending])
                   (simp_all add: ascending_delete)
  with Inr show ?thesis by (simp add: remove_known_def attempt_def)
qed

lemma move_index:
  assumes "ascending (self_index self)"
  shows "ascending (self_index (state_after
           (attempt (bisect_left (self_index self) old_price) self (\<lambda>old_index.
              del_both self old_index (\<lambda>self1. insert_new self1 order_id (VNum k) delta)))))"
proof (cases "bisect_left (self_index self) old_price")
  case (Inl e)
  with assms show ?thesis by (simp add: attempt_def)
next
  case (Inr index)
  have "ascending (self_index (state_after (del_both self index
          (\<lambda>self1. insert_new self1 order_id (VNum k) delta))))"
    using assms by (intro del_both_index [where P = ascending])
                   (simp_all add: ascending_delete insert_new_index)
  with Inr show ?thesis by (simp add: attempt_def)
qed

lemma overwrite_index:
  assumes "ascending (self_index self)"
  shows "ascending (self_index (state_after
           (attempt (py_set (self_index self) (insertion_point (self_index self) k) (VNum k))
              self (\<lambda>ix.
            attempt (py_set (self_list self) (insertion_point (self_index self) k) delta)
              (self\<lparr>self_index := ix\<rparr>) (\<lambda>ls.
              Inr (self\<lparr>self_index := ix, self_list := ls\<rparr>))))))"
  using assms ascending_overwrite [OF assms, of k]
  by (auto simp: attempt_def py_set_def)

lemma Indexed_storeArray_index:
  assumes asc: "ascending (self_index self)"
    and price: "is_number price \<or> price = VNone \<and> known_id self (price # rest)"
  shows "ascending (self_index (state_after (Indexed_storeArray self (price # rest))))"
proof (cases "py_get (price # rest) 1")
  case (Inl e)
  with asc show ?thesis
    by (auto simp: Indexed_storeArray_def attempt_def py_get_def split: sum.splits)
next
  case size: (Inr sz)
  show ?thesis
  proof (cases "py_get (price # rest) 2")
    case (Inl e)
    with asc size show ?thesis
      by (auto simp: Indexed_storeArray_def attempt_def py_get_def split: sum.splits)
  next
    case id: (Inr order_id)
    obtain ip where ip: "indexed_price self price = Inr ip"
      and ip_cases: "is_number ip \<or> ip = VNone \<and> self_hashmap self order_id \<noteq> None"
      using price id
      by (cases price) (auto simp: indexed_price_def known_id_def)
    have head: "Indexed_storeArray self (price # rest)
        = (if py_truthy sz then
             (case self_hashmap self order_id of
                Some old_price \<Rightarrow>
                  (let index_price = py_or ip old_price in
                   attempt (py_abs index_price) self (\<lambda>a.
                   attempt (py_set (price # rest) 0 a) self (\<lambda>delta.
                     if index_price = old_price then
                       attempt (bisect_left (self_index self) index_price) self (\<lambda>index.
                       attempt (py_set (self_index self) index index_price) self (\<lambda>ix.
                       attempt (py_set (self_list self) index delta)
                               (self\<lparr>self_index := ix\<rparr>) (\<lambda>ls.
                         Inr (self\<lparr>self_index := ix, self_list := ls\<rparr>))))
                     else
                       attempt (bisect_left (self_index self) old_price) self (\<lambda>old_index.
                       del_both self old_index (\<lambda>self1.
                         insert_new self1 order_id index_price delta)))))
              | None \<Rightarrow> insert_new self order_id ip (price # rest))
           else
             (case self_hashmap self order_id of
                Some old_price \<Rightarrow> remove_known self order_id old_price
              | None \<Rightarrow> Inr self))"
      using size id ip by (simp add: Indexed_storeArray_def attempt_def py_get_def)
    show ?thesis
    proof (cases "py_truthy sz")
      case False
      with head asc show ?thesis
        by (cases "self_hashmap self order_id") (simp_all add: remove_known_index)
    next
      case True
      show ?thesis
      proof (cases "self_hashmap self order_id")
        case None
        with ip_cases obtain k where "ip = VNum k" by (cases ip) auto
        with head True None asc show ?thesis by (simp add: insert_new_index)
      next
        case (Some old_price)
        show ?thesis
        proof (cases "py_or ip old_price")
          case (VNum k)
          have over: "ascending (self_index (state_after
             (attempt (bisect_left (self_index self) (VNum k)) self (\<lambda>index.
              attempt (py_set (self_index self) index (VNum k)) self (\<lambda>ix.
              attempt (py_set (self_list self) index delta)
                      (self\<lparr>self_index := ix\<rparr>) (\<lambda>ls.
                Inr (self\<lparr>self_index := ix, self_list := ls\<rparr>)))))))" for delta
            using overwrite_index [OF asc, of k delta] bisect_left_ascending [OF asc, of k]
            by (simp add: attempt_Inr)
          have abs: "py_abs (VNum k) = Inr (VNum \<bar>k\<bar>)"
            and set: "py_set (price # rest) 0 (VNum \<bar>k\<bar>) = Inr (VNum \<bar>k\<bar> # rest)"
            by (simp_all add: py_set_def)
          show ?thesis
          proof (cases "old_price = VNum k")
            case same: True
            show ?thesis
              unfolding head using True Some VNum over
              by (simp add: Let_def abs set attempt_Inr same)
          next
            case False
            then show ?thesis
              unfolding head using True Some VNum move_index [OF asc]
              by (simp add: Let_def abs set attempt_Inr)
          qed
        next
          case VNone
          with head True Some asc show ?thesis by (simp add: Let_def attempt_def)
        next
          case (VStr s)
          with head True Some asc show ?thesis by (simp add: Let_def attempt_def)
        qed
      qed
    qed
  qed
qed

lemma incremental_block_result:
  assumes asc: "ascending (self_index self)"
    and "incremental_block self delta index_price sz old_price = Inr r"
  shows "\<exists>k new_size delta'.
           r = (VNum k, old_price, Some (insertion_point (self_index self) k), new_size, delta')
           \<and> py_or index_price old_price = VNum k"
proof (cases "py_or index_price old_price")
  case (VNum k)
  with assms(2) bisect_left_ascending [OF asc, of k] show ?thesis
    by (auto simp: incremental_block_def Let_def split: sum.splits)
next
  case VNone
  with assms(2) show ?thesis
    by (auto simp: incremental_block_def Let_def split: sum.splits)
next
  case (VStr s)
  with assms(2) show ?thesis
    by (auto simp: incremental_block_def Let_def split: sum.splits)
qed

lemma IncrementalIndexed_storeArray_index:
  assumes asc: "ascending (self_index self)"
    and price: "is_number price \<or> price = VNone \<and> known_id self (price # rest)"
  shows "ascending
           (self_index (state_after (IncrementalIndexed_storeArray self (price # rest))))"
proof (cases "py_get (price # rest) 1")
  case (Inl e)
  with asc show ?thesis
    by (auto simp: IncrementalIndexed_storeArray_def attempt_def py_get_def split: sum.splits)
next
  case size: (Inr sz)
  show ?thesis
  proof (cases "py_get (price # rest) 2")
    case (Inl e)
    with asc size show ?thesis
      by (auto simp: IncrementalIndexed_storeArray_def attempt_def py_get_def
               split: sum.splits)
  next
    case id: (Inr order_id)
    obtain ip where ip: "indexed_price self price = Inr ip"
      and ip_cases: "is_number ip \<or> ip = VNone \<and> self_hashmap self order_id \<noteq> None"
      using price id
      by (cases price) (auto simp: indexed_price_def known_id_def)
    let ?known = "self_hashmap self order_id \<noteq> None"
    let ?rest = "\<lambda>(index_price, old_price, index, size, delta).
       attempt (py_gt0 size) self (\<lambda>positive.
         if positive then
           if ?known then
             if index_price = old_price then
               (case index of
                  None \<Rightarrow> Inl (TypeError, self)
                | Some index \<Rightarrow>
                    attempt (py_set (self_index self) index index_price) self (\<lambda>ix.
                    attempt (py_set (self_list self) index delta)
                            (self\<lparr>self_index := ix\<rparr>) (\<lambda>ls.
                      Inr (self\<lparr>self_index := ix, self_list := ls\<rparr>))))
             else
               attempt (bisect_left (self_index self) old_price) self (\<lambda>old_index.
               del_both self old_index (\<lambda>self1.
                 insert_new self1 order_id index_price delta))
           else insert_new self order_id index_price delta
         else if ?known then
           remove_known self order_id (the (self_hashmap self order_id))
         else Inr self)"
    have head: "IncrementalIndexed_storeArray self (price # rest)
        = attempt (py_gt0 sz) self (\<lambda>positive.
          attempt (if positive \<and> ?known
                   then incremental_block self (price # rest) ip sz
                          (the (self_hashmap self order_id))
                   else Inr (ip, VNone, None, sz, price # rest)) self ?rest)"
    proof -
      have price0: "py_get (price # rest) 0 = Inr price" by (simp add: py_get_def)
      show ?thesis
        by (simp only: IncrementalIndexed_storeArray_def price0 size id ip attempt_Inr Let_def)
    qed
    have tail: "ascending (self_index (state_after (?rest (VNum k, old_price,
                   Some (insertion_point (self_index self) k), new_size, delta))))"
      for k old_price new_size delta
    proof (cases "py_gt0 new_size")
      case (Inl e)
      with asc show ?thesis by (simp add: attempt_def)
    next
      case (Inr positive)
      show ?thesis
      proof (cases "old_price = VNum k")
        case True
        with Inr asc overwrite_index [OF asc, of k delta] insert_new_index [OF asc]
          remove_known_index [OF asc]
        show ?thesis by (simp add: attempt_Inr)
      next
        case False
        with Inr asc move_index [OF asc] insert_new_index [OF asc] remove_known_index [OF asc]
        show ?thesis by (simp add: attempt_Inr)
      qed
    qed
    show ?thesis
    proof (cases "py_gt0 sz")
      case (Inl e)
      with head asc show ?thesis by (simp add: attempt_def)
    next
      case pos: (Inr positive)
      show ?thesis
      proof (cases "positive \<and> ?known")
        case True
        show ?thesis
        proof (cases "incremental_block self (price # rest) ip sz
                        (the (self_hashmap self order_id))")
          case (Inl e)
          with head pos True asc show ?thesis by (simp add: attempt_def)
        next
          case (Inr r)
          from incremental_block_result [OF asc Inr] obtain k new_size delta' where
            "r = (VNum k, the (self_hashmap self order_id),
                  Some (insertion_point (self_index self) k), new_size, delta')"
            by blast
          with head pos True Inr tail [of k "the (self_hashmap self order_id)" new_size delta']
          show ?thesis by (simp add: attempt_Inr)
        qed
      next
        case False
        have unknown_num: "\<exists>k. ip = VNum k" if "\<not> ?known"
          using that ip_cases by (cases ip) auto
        from False pos have "IncrementalIndexed_storeArray self (price # rest)
            = (if positive then insert_new self order_id ip (price # rest)
               else if ?known then remove_known self order_id (the (self_hashmap self order_id))
               else Inr self)"
          unfolding head by (auto simp: attempt_Inr)
        with asc unknown_num False insert_new_index [OF asc] remove_known_index [OF asc]
        show ?thesis by auto
      qed
    qed
  qed
qed

lemma remove_index_index:
  "self_index (state_after (remove_index self order)) = self_index self"
  by (cases "self_class self")
     (auto simp: remove_index_def Indexed_remove_index_def attempt_def split: sum.splits)

lemma limit_loop_index:
  "\<exists>j. self_index (state_after (limit_loop k self)) = take j (self_index self)"
proof (induction k arbitrary: self)
  case 0
  show ?case by (auto intro: exI [of _ "length (self_index self)"])
next
  case (Suc k)
  have same: "\<exists>j. ix = take j ix" for ix :: "val list"
    by (auto intro: exI [of _ "length ix"])
  show ?case
  proof (cases "py_pop (self_list self)")
    case (Inl e)
    then show ?thesis by (simp add: attempt_def same)
  next
    case (Inr p)
    obtain order ls where p: "p = (order, ls)" by (cases p)
    let ?s0 = "self\<lparr>self_list := ls\<rparr>"
    have ri: "self_index (state_after (remove_index ?s0 order)) = self_index self"
      using remove_index_index [of ?s0 order] by simp
    show ?thesis
    proof (cases "remove_index ?s0 order")
      case (Inl es)
      with Inr p ri show ?thesis by (cases es) (simp add: attempt_def same)
    next
      case s1: (Inr self1)
      with ri have ix1: "self_index self1 = self_index self" by simp
      show ?thesis
      proof (cases "py_pop (self_index self1)")
        case (Inl e)
        with Inr p s1 ix1 show ?thesis by (simp add: attempt_def same)
      next
        case q: (Inr q)
        obtain key ix where q': "q = (key, ix)" by (cases q)
        with q ix1 have ix: "ix = take (length (self_index self) - 1) (self_index self)"
          by (auto simp: py_pop_def butlast_conv_take split: if_splits)
        from Suc.IH [of "self1\<lparr>self_index := ix\<rparr>"] obtain j where
          "self_index (state_after (limit_loop k (self1\<lparr>self_index := ix\<rparr>))) = take j ix"
          by auto
        with Inr p s1 q q' ix show ?thesis
          by (auto simp: attempt_def intro: exI [of _ "min j (length (self_index self) - 1)"])
      qed
    qed
  qed
qed

lemma limit_index:
  "\<exists>j. self_index (state_after (limit self n)) = take j (self_index self)"
proof (cases "len (self\<lparr>self_n := (case n of None \<Rightarrow> maxsize | Some k \<Rightarrow> k)\<rparr>)")
  case (Inl e)
  then show ?thesis
    by (auto simp: limit_def Let_def attempt_def intro: exI [of _ "length (self_index self)"])
next
  case (Inr visible)
  with limit_loop_index
         [of "nat (visible - self_depth self)"
             "self\<lparr>self_n := (case n of None \<Rightarrow> maxsize | Some k \<Rightarrow> k)\<rparr>"]
  show ?thesis by (simp add: limit_def Let_def attempt_def)
qed

lemma ascending_take: "ascending ix \<Longrightarrow> ascending (take j ix)"
  using ascending_parts(1,3) [of ix j] by (simp add: ascending_def)

lemma strictly_ascending_take: "strictly_ascending ix \<Longrightarrow> strictly_ascending (take j ix)"
  using ascending_parts(1) [OF strictly_ascending_ascending, of ix j]
    strictly_ascending_parts(1) [of ix j]
  by (simp add: strictly_ascending_def)

text \<open>
  Claim C2, amended. After \<open>storeArray\<close> of a delta with a numeric price, returned or
  raised, the index of \<open>OrderBookSide\<close>, \<open>CountedOrderBookSide\<close> and
  \<open>IncrementalOrderBookSide\<close> is strictly ascending if it was; in the two indexed
  classes, for a numeric price or a \<open>None\<close> price with a known order id, the index is
  ascending if it was, and not strictly in general, since two orders at one price have
  equal keys. \<open>limit\<close> keeps either order in every class.
\<close>

theorem index_stays_ordered:
  "(self_class self \<in> {Absolute, Counted, Incremental}
      \<and> strictly_ascending (self_index self) \<longrightarrow>
    strictly_ascending (self_index (state_after (self_storeArray self (VNum p # rest)))))
   \<and> (self_class self \<in> {Indexed, IncrementalIndexed}
      \<and> ascending (self_index self)
      \<and> (is_number price \<or> price = VNone \<and> known_id self (price # rest)) \<longrightarrow>
    ascending (self_index (state_after (self_storeArray self (price # rest)))))
   \<and> (strictly_ascending (self_index self) \<longrightarrow>
        strictly_ascending (self_index (state_after (limit self n))))
   \<and> (ascending (self_index self) \<longrightarrow>
        ascending (self_index (state_after (limit self n))))"
proof (intro conjI impI)
  assume "self_class self \<in> {Absolute, Counted, Incremental}
            \<and> strictly_ascending (self_index self)"
  then show "strictly_ascending
               (self_index (state_after (self_storeArray self (VNum p # rest))))"
    by (auto simp: self_storeArray_def storeArray_index Counted_storeArray_index
          Incremental_storeArray_index)
next
  assume "self_class self \<in> {Indexed, IncrementalIndexed}
            \<and> ascending (self_index self)
            \<and> (is_number price \<or> price = VNone \<and> known_id self (price # rest))"
  then show "ascending (self_index (state_after (self_storeArray self (price # rest))))"
    using Indexed_storeArray_index [of self price rest]
      IncrementalIndexed_storeArray_index [of self price rest]
    by (auto simp: self_storeArray_def)
next
  assume "strictly_ascending (self_index self)"
  with limit_index [of self n]
  show "strictly_ascending (self_index (state_after (limit self n)))"
    by (auto simp: strictly_ascending_take)
next
  assume "ascending (self_index self)"
  with limit_index [of self n]
  show "ascending (self_index (state_after (limit self n)))"
    by (auto simp: ascending_take)
qed

theorem index_stays_ordered_witness:
  "self_class asks_8_9 \<in> {Absolute, Counted, Incremental}
   \<and> strictly_ascending (self_index asks_8_9)
   \<and> strictly_ascending (self_index (state_after (self_storeArray asks_8_9 [VNum 7, VNum 1])))
   \<and> strictly_ascending (self_index (state_after (limit asks_8_9 (Some 1))))
   \<and> self_class indexed_asks_A \<in> {Indexed, IncrementalIndexed}
   \<and> ascending (self_index indexed_asks_A)
   \<and> is_number (VNum 100)
   \<and> ascending (self_index (state_after
         (self_storeArray indexed_asks_A [VNum 100, VNum 7, VStr ''B''])))
   \<and> ascending (self_index (state_after (limit indexed_asks_A (Some 1))))"
  using index_stays_ordered
          [where self = asks_8_9 and p = 7 and rest = "[VNum 1]" and n = "Some 1"]
        index_stays_ordered
          [where self = indexed_asks_A and price = "VNum 100"
             and rest = "[VNum 7, VStr ''B'']" and n = "Some 1"]
  by (simp add: asks_8_9_def indexed_asks_A_def strictly_ascending_def ascending_def)

subsection \<open>The Absolute strategy\<close>

lemma keyed_length: "keyed self \<Longrightarrow> length (self_list self) = length (self_index self)"
  by (simp add: keyed_def list_all2_lengthD)

lemma keyed_level:
  assumes "keyed self" and "i < length (self_index self)"
  shows "2 \<le> length (self_list self ! i)"
    and "signed_price self (self_list self ! i ! 0) = Inr (self_index self ! i)"
  using assms list_all2_nthD2 [of _ "self_list self" "self_index self" i]
  by (auto simp: keyed_def)

lemma storeArray_absolute_apply:
  assumes asc: "ascending (self_index self)" and keyed: "keyed self"
  shows "storeArray self [VNum price, VNum sz] = Inr (absolute_apply self price sz)"
proof -
  let ?key = "price_key self price"
  let ?i = "insertion_point (self_index self) ?key"
  have b: "bisect_left (self_index self) (VNum ?key) = Inr ?i"
    using asc by (rule bisect_left_ascending)
  have m: "index_matches self ?i (VNum ?key) \<longleftrightarrow> VNum ?key \<in> set (self_index self)"
    using match_iff_stored [OF asc, of ?key] by (simp add: index_matches_def)
  show ?thesis
  proof (cases "VNum ?key \<in> set (self_index self)")
    case True
    with m have i: "?i < length (self_index self)" by (simp add: index_matches_def)
    with keyed have "?i < length (self_list self)" "2 \<le> length (self_list self ! ?i)"
      by (simp_all add: keyed_length keyed_level)
    with True m b i show ?thesis
      by (simp add: storeArray_def absolute_apply_def attempt_def py_get_def py_set_def
            py_del_def del_both_def Let_def)
  next
    case False
    with m b show ?thesis
      by (simp add: storeArray_def absolute_apply_def attempt_def py_get_def
            insert_both_def py_insert_def Let_def)
  qed
qed

lemma signed_price_side:
  "self_side self' = self_side self \<Longrightarrow> signed_price self' v = signed_price self v"
  by (simp add: signed_price_def)

lemma signed_price_inj:
  "signed_price self v = Inr (VNum (price_key self p)) \<Longrightarrow> v = VNum p"
  by (cases v) (auto simp: signed_price_def price_key_def split: if_splits)

lemma absolute_apply_side [simp]: "self_side (absolute_apply self price sz) = self_side self"
  by (simp add: absolute_apply_def Let_def)

lemma keyed_absolute_apply:
  assumes asc: "ascending (self_index self)" and keyed: "keyed self"
  shows "keyed (absolute_apply self price sz)"
proof -
  let ?P = "\<lambda>level key. 2 \<le> length level \<and> signed_price self (level ! 0) = Inr key"
  let ?key = "price_key self price"
  let ?i = "insertion_point (self_index self) ?key"
  let ?ls = "self_list self" and ?ix = "self_index self"
  have all: "list_all2 ?P ?ls ?ix" using keyed by (simp add: keyed_def)
  have k: "keyed s \<longleftrightarrow> list_all2 ?P (self_list s) (self_index s)"
    if "self_side s = self_side self" for s
    unfolding keyed_def signed_price_side [OF that] ..
  have over: "list_all2 ?P (?ls[?i := (?ls ! ?i)[1 := VNum sz]]) ?ix"
    if "VNum ?key \<in> set ?ix"
  proof -
    from that have i: "?i < length ?ix"
      using match_iff_stored [OF asc, of ?key] by simp
    have "?P ((?ls ! ?i)[1 := VNum sz]) (?ix ! ?i)"
      using keyed_level [OF keyed i] by simp
    with all have "list_all2 ?P (?ls[?i := (?ls ! ?i)[1 := VNum sz]]) (?ix[?i := ?ix ! ?i])"
      by (rule list_all2_update_cong)
    then show ?thesis by (simp only: list_update_id)
  qed
  have new: "?P [VNum price, VNum sz] (VNum ?key)" by simp
  have "list_all2 ?P ([VNum price, VNum sz] # drop ?i ?ls) (VNum ?key # drop ?i ?ix)"
    using new list_all2_dropI [OF all, of ?i] by (simp only: list_all2_Cons simp_thms)
  with list_all2_takeI [OF all, of ?i]
  have ins: "list_all2 ?P (take ?i ?ls @ [VNum price, VNum sz] # drop ?i ?ls)
               (take ?i ?ix @ VNum ?key # drop ?i ?ix)"
    by (rule list_all2_appendI)
  have del: "list_all2 ?P (take ?i ?ls @ drop (Suc ?i) ?ls) (take ?i ?ix @ drop (Suc ?i) ?ix)"
    using list_all2_takeI [OF all, of ?i] list_all2_dropI [OF all, of "Suc ?i"]
    by (rule list_all2_appendI)
  have side: "self_side (absolute_apply self price sz) = self_side self" by simp
  show ?thesis
  proof (cases "VNum ?key \<in> set ?ix")
    case True
    show ?thesis
      unfolding k [OF side] using True over [OF True] del
      by (cases "sz = 0") (simp_all add: absolute_apply_def Let_def)
  next
    case False
    show ?thesis
      unfolding k [OF side] using False ins all
      by (cases "sz = 0") (simp_all add: absolute_apply_def Let_def)
  qed
qed

lemma strictly_ascending_distinct: "strictly_ascending ix \<Longrightarrow> distinct ix"
  by (simp add: strictly_ascending_def strict_sorted_iff distinct_map)

lemma insertion_point_inserted:
  "insertion_point (take (insertion_point ix x) ix @ VNum x # ys) x = insertion_point ix x"
proof -
  have "\<forall>k \<in> set (take (insertion_point ix x) ix). num_of k < x"
    using below_insertion_point by blast
  then show ?thesis
    by (simp add: insertion_point_def flip: takeWhile_eq_take)
qed

text \<open>
  Claim C7. On an object whose index is strictly ascending and keys its levels,
  \<open>OrderBookSide.storeArray\<close> on \<open>[price, size]\<close> returns, and does what the
  Absolute strategy says: overwrite the size in place, insert at the binary-search
  position, remove exactly the matching level, or change nothing. The result again has a
  strictly ascending index that keys its levels. For a nonzero size, applying the same
  delta a second time changes nothing more, and exactly one level has that price; its
  size is the delta's.
\<close>

theorem absolute_strategy:
  assumes strict: "strictly_ascending (self_index self)" and keyed: "keyed self"
  shows "storeArray self [VNum price, VNum sz] = Inr (absolute_apply self price sz)
       \<and> strictly_ascending (self_index (absolute_apply self price sz))
       \<and> keyed (absolute_apply self price sz)
       \<and> (sz \<noteq> 0 \<longrightarrow>
            storeArray (absolute_apply self price sz) [VNum price, VNum sz]
              = Inr (absolute_apply self price sz)
          \<and> (\<exists>i < length (self_list (absolute_apply self price sz)).
                self_list (absolute_apply self price sz) ! i ! 0 = VNum price
              \<and> self_list (absolute_apply self price sz) ! i ! 1 = VNum sz
              \<and> (\<forall>j < length (self_list (absolute_apply self price sz)).
                    self_list (absolute_apply self price sz) ! j ! 0 = VNum price
                      \<longrightarrow> j = i)))"
proof -
  let ?s = "absolute_apply self price sz"
  let ?key = "price_key self price"
  let ?i = "insertion_point (self_index self) ?key"
  have asc: "ascending (self_index self)"
    using strict by (rule strictly_ascending_ascending)
  have run: "storeArray self [VNum price, VNum sz] = Inr ?s"
    using asc keyed by (rule storeArray_absolute_apply)
  have strict': "strictly_ascending (self_index ?s)"
    using storeArray_index [OF strict, of price "[VNum sz]"] run by simp
  have keyed': "keyed ?s" using asc keyed by (rule keyed_absolute_apply)
  have asc': "ascending (self_index ?s)"
    using strict' by (rule strictly_ascending_ascending)
  have key': "price_key ?s price = ?key" by (simp add: price_key_def)
  have twice: "storeArray ?s [VNum price, VNum sz] = Inr ?s
      \<and> (\<exists>i < length (self_list ?s).
            self_list ?s ! i ! 0 = VNum price \<and> self_list ?s ! i ! 1 = VNum sz
          \<and> (\<forall>j < length (self_list ?s). self_list ?s ! j ! 0 = VNum price \<longrightarrow> j = i))"
    if nz: "sz \<noteq> 0"
  proof -
    have at: "?i < length (self_index ?s) \<and> self_index ?s ! ?i = VNum ?key
                \<and> ?i < length (self_list ?s) \<and> self_list ?s ! ?i ! 1 = VNum sz"
    proof (cases "VNum ?key \<in> set (self_index self)")
      case True
      then have i: "?i < length (self_index self)" "self_index self ! ?i = VNum ?key"
        using match_iff_stored [OF asc, of ?key] by simp_all
      with keyed have "?i < length (self_list self)" "2 \<le> length (self_list self ! ?i)"
        by (simp_all add: keyed_length keyed_level)
      with True nz i show ?thesis by (simp add: absolute_apply_def Let_def)
    next
      case False
      have le: "?i \<le> length (self_index self)" by (rule insertion_point_le)
      with keyed have "?i \<le> length (self_list self)" by (simp add: keyed_length)
      with False nz le show ?thesis
        by (simp add: absolute_apply_def Let_def nth_append)
    qed
    then have stored: "VNum ?key \<in> set (self_index ?s)" by (metis nth_mem)
    have pos: "insertion_point (self_index ?s) ?key = ?i"
    proof -
      let ?i' = "insertion_point (self_index ?s) ?key"
      from stored have "?i' < length (self_index ?s)" "self_index ?s ! ?i' = VNum ?key"
        using match_iff_stored [OF asc', of ?key] by simp_all
      with at nth_eq_iff_index_eq [OF strictly_ascending_distinct [OF strict'], of ?i' ?i]
      show ?thesis by simp
    qed
    have price: "self_list ?s ! ?i ! 0 = VNum price"
      using keyed_level(2) [OF keyed', of ?i] at key' signed_price_inj [of ?s _ price]
      by simp
    have only: "j = ?i" if "j < length (self_list ?s)" "self_list ?s ! j ! 0 = VNum price" for j
    proof -
      from that(1) keyed' have j: "j < length (self_index ?s)" by (simp add: keyed_length)
      with keyed_level(2) [OF keyed' j] that(2) key' have "self_index ?s ! j = VNum ?key"
        by simp
      with j at nth_eq_iff_index_eq [OF strictly_ascending_distinct [OF strict'], of j ?i]
      show ?thesis by simp
    qed
    have "(self_list ?s ! ?i)[Suc 0 := VNum sz] = self_list ?s ! ?i"
      using at by (metis One_nat_def list_update_id)
    then have same:
      "(self_list ?s)[?i := (self_list ?s ! ?i)[Suc 0 := VNum sz]] = self_list ?s"
      by (simp only: list_update_id)
    have "absolute_apply ?s price sz = ?s\<lparr>self_list := self_list ?s\<rparr>"
      using nz stored
      by (simp add: absolute_apply_def [of ?s] Let_def key' pos same
            del: absolute_apply_side)
    then have "absolute_apply ?s price sz = ?s" by simp
    with storeArray_absolute_apply [OF asc' keyed', of price sz]
    have "storeArray ?s [VNum price, VNum sz] = Inr ?s" by simp
    with at price only show ?thesis by blast
  qed
  from run strict' keyed' twice show ?thesis by blast
qed

theorem absolute_strategy_witness:
  "strictly_ascending (self_index asks_8_9) \<and> keyed asks_8_9 \<and> (4::int) \<noteq> 0
   \<and> storeArray asks_8_9 [VNum 9, VNum 4]
       = Inr (asks_8_9\<lparr>self_list := [[VNum 8, VNum 1], [VNum 9, VNum 4]]\<rparr>)
   \<and> storeArray (asks_8_9\<lparr>self_list := [[VNum 8, VNum 1], [VNum 9, VNum 4]]\<rparr>)
         [VNum 9, VNum 4]
       = Inr (asks_8_9\<lparr>self_list := [[VNum 8, VNum 1], [VNum 9, VNum 4]]\<rparr>)
   \<and> storeArray asks_8_9 [VNum 7, VNum 2]
       = Inr (asks_8_9\<lparr>self_list := [[VNum 7, VNum 2], [VNum 8, VNum 1], [VNum 9, VNum 1]],
                        self_index := [VNum 7, VNum 8, VNum 9]\<rparr>)
   \<and> storeArray asks_8_9 [VNum 9, VNum 0]
       = Inr (asks_8_9\<lparr>self_list := [[VNum 8, VNum 1]], self_index := [VNum 8]\<rparr>)
   \<and> storeArray asks_8_9 [VNum 7, VNum 0] = Inr asks_8_9"
proof -
  have h: "strictly_ascending (self_index asks_8_9)" "keyed asks_8_9"
    by (simp_all add: asks_8_9_def strictly_ascending_def keyed_def signed_price_def)
  have a: "absolute_apply asks_8_9 9 4
             = asks_8_9\<lparr>self_list := [[VNum 8, VNum 1], [VNum 9, VNum 4]]\<rparr>"
    and b: "absolute_apply asks_8_9 7 2
             = asks_8_9\<lparr>self_list := [[VNum 7, VNum 2], [VNum 8, VNum 1], [VNum 9, VNum 1]],
                         self_index := [VNum 7, VNum 8, VNum 9]\<rparr>"
    and c: "absolute_apply asks_8_9 9 0
             = asks_8_9\<lparr>self_list := [[VNum 8, VNum 1]], self_index := [VNum 8]\<rparr>"
    and d: "absolute_apply asks_8_9 7 0 = asks_8_9"
    by (simp_all add: absolute_apply_def asks_8_9_def price_key_def insertion_point_def)
  from absolute_strategy [OF h, of 9 4] absolute_strategy [OF h, of 7 2]
    absolute_strategy [OF h, of 9 0] absolute_strategy [OF h, of 7 0] h
  show ?thesis unfolding a b c d by simp
qed

subsection \<open>The Incremental strategy\<close>

lemma sized_level:
  assumes "sized self" and "i < length (self_list self)"
  shows "self_list self ! i ! 1 = VNum (num_of (self_list self ! i ! 1))"
proof -
  from assms have "is_number (self_list self ! i ! 1)"
    by (simp add: sized_def list_all_length)
  then show ?thesis by (cases "self_list self ! i ! 1") simp_all
qed

lemma Incremental_storeArray_incremental_apply:
  assumes asc: "ascending (self_index self)" and keyed: "keyed self" and sized: "sized self"
  shows "Incremental_storeArray self [VNum price, VNum sz]
           = Inr (incremental_apply self price sz)"
proof -
  let ?key = "price_key self price"
  let ?i = "insertion_point (self_index self) ?key"
  have b: "bisect_left (self_index self) (VNum ?key) = Inr ?i"
    using asc by (rule bisect_left_ascending)
  have m: "index_matches self ?i (VNum ?key) \<longleftrightarrow> VNum ?key \<in> set (self_index self)"
    using match_iff_stored [OF asc, of ?key] by (simp add: index_matches_def)
  show ?thesis
  proof (cases "VNum ?key \<in> set (self_index self)")
    case True
    with m have i: "?i < length (self_index self)" by (simp add: index_matches_def)
    with keyed have l: "?i < length (self_list self)" "2 \<le> length (self_list self ! ?i)"
      by (simp_all add: keyed_length keyed_level)
    let ?old = "num_of (self_list self ! ?i ! 1)"
    have old: "self_list self ! ?i ! 1 = VNum ?old"
      using sized l(1) by (rule sized_level)
    have get: "py_get (self_list self) ?i = Inr (self_list self ! ?i)"
      "py_get (self_list self ! ?i) 1 = Inr (VNum ?old)"
      using l old by (simp_all add: py_get_def)
    have add: "py_add (VNum sz) (VNum ?old) = Inr (VNum (sz + ?old))" by simp
    show ?thesis
    proof (cases "0 < sz + ?old")
      case pos: True
      with True m b i l get add show ?thesis
        by (simp add: Incremental_storeArray_def incremental_apply_def attempt_def
              py_get_def py_set_def Let_def)
    next
      case False
      with True m b i l get add show ?thesis
        by (simp add: Incremental_storeArray_def incremental_apply_def attempt_def
              py_get_def py_del_def del_both_def Let_def)
    qed
  next
    case False
    with m b show ?thesis
      by (cases "0 < sz")
         (simp_all add: Incremental_storeArray_def incremental_apply_def attempt_def
            py_get_def insert_both_def py_insert_def Let_def)
  qed
qed

lemma incremental_apply_side [simp]:
  "self_side (incremental_apply self price sz) = self_side self"
  by (simp add: incremental_apply_def Let_def)

lemma keyed_incremental_apply:
  assumes asc: "ascending (self_index self)" and keyed: "keyed self"
  shows "keyed (incremental_apply self price sz)"
proof -
  let ?P = "\<lambda>level key. 2 \<le> length level \<and> signed_price self (level ! 0) = Inr key"
  let ?key = "price_key self price"
  let ?i = "insertion_point (self_index self) ?key"
  let ?ls = "self_list self" and ?ix = "self_index self"
  let ?e = "sz + num_of (?ls ! ?i ! 1)"
  have all: "list_all2 ?P ?ls ?ix" using keyed by (simp add: keyed_def)
  have k: "keyed s \<longleftrightarrow> list_all2 ?P (self_list s) (self_index s)"
    if "self_side s = self_side self" for s
    unfolding keyed_def signed_price_side [OF that] ..
  have over: "list_all2 ?P (?ls[?i := (?ls ! ?i)[1 := VNum ?e]]) ?ix"
    if "VNum ?key \<in> set ?ix"
  proof -
    from that have i: "?i < length ?ix"
      using match_iff_stored [OF asc, of ?key] by simp
    have "?P ((?ls ! ?i)[1 := VNum ?e]) (?ix ! ?i)"
      using keyed_level [OF keyed i] by simp
    with all have "list_all2 ?P (?ls[?i := (?ls ! ?i)[1 := VNum ?e]]) (?ix[?i := ?ix ! ?i])"
      by (rule list_all2_update_cong)
    then show ?thesis by (simp only: list_update_id)
  qed
  have new: "?P [VNum price, VNum sz] (VNum ?key)" by simp
  have "list_all2 ?P ([VNum price, VNum sz] # drop ?i ?ls) (VNum ?key # drop ?i ?ix)"
    using new list_all2_dropI [OF all, of ?i] by (simp only: list_all2_Cons simp_thms)
  with list_all2_takeI [OF all, of ?i]
  have ins: "list_all2 ?P (take ?i ?ls @ [VNum price, VNum sz] # drop ?i ?ls)
               (take ?i ?ix @ VNum ?key # drop ?i ?ix)"
    by (rule list_all2_appendI)
  have del: "list_all2 ?P (take ?i ?ls @ drop (Suc ?i) ?ls) (take ?i ?ix @ drop (Suc ?i) ?ix)"
    using list_all2_takeI [OF all, of ?i] list_all2_dropI [OF all, of "Suc ?i"]
    by (rule list_all2_appendI)
  have side: "self_side (incremental_apply self price sz) = self_side self" by simp
  show ?thesis
  proof (cases "VNum ?key \<in> set ?ix")
    case True
    show ?thesis
      unfolding k [OF side] using True over [OF True] del
      by (cases "0 < ?e") (simp_all add: incremental_apply_def Let_def)
  next
    case False
    show ?thesis
      unfolding k [OF side] using False ins all
      by (cases "0 < sz") (simp_all add: incremental_apply_def Let_def)
  qed
qed

lemma sized_incremental_apply:
  assumes asc: "ascending (self_index self)" and keyed: "keyed self" and sized: "sized self"
  shows "sized (incremental_apply self price sz)"
proof -
  let ?Q = "\<lambda>level. is_number (level ! 1)"
  let ?key = "price_key self price"
  let ?i = "insertion_point (self_index self) ?key"
  let ?ls = "self_list self" and ?ix = "self_index self"
  let ?e = "sz + num_of (?ls ! ?i ! 1)"
  have all: "\<forall>level \<in> set ?ls. ?Q level" using sized by (simp add: sized_def list_all_iff)
  have over: "\<forall>level \<in> set (?ls[?i := (?ls ! ?i)[1 := VNum ?e]]). ?Q level"
    if "VNum ?key \<in> set ?ix"
  proof -
    from that have i: "?i < length ?ix"
      using match_iff_stored [OF asc, of ?key] by simp
    then have "?Q ((?ls ! ?i)[1 := VNum ?e])"
      using keyed_level(1) [OF keyed i] by simp
    with all show ?thesis
      using set_update_subset_insert [of ?ls ?i "(?ls ! ?i)[1 := VNum ?e]"] by blast
  qed
  have ins: "\<forall>level \<in> set (take ?i ?ls @ [VNum price, VNum sz] # drop ?i ?ls). ?Q level"
    using all by (auto dest: in_set_takeD in_set_dropD)
  have del: "\<forall>level \<in> set (take ?i ?ls @ drop (Suc ?i) ?ls). ?Q level"
    using all by (auto dest: in_set_takeD in_set_dropD)
  show ?thesis
  proof (cases "VNum ?key \<in> set ?ix")
    case True
    show ?thesis
      unfolding sized_def list_all_iff using True over [OF True] del
      by (cases "0 < ?e") (simp_all add: incremental_apply_def Let_def)
  next
    case False
    show ?thesis
      unfolding sized_def list_all_iff using False ins all
      by (cases "0 < sz") (simp_all add: incremental_apply_def Let_def)
  qed
qed

text \<open>
  Claim C8. On an object whose index is strictly ascending and keys its levels, and
  whose levels have numeric sizes, \<open>IncrementalOrderBookSide.storeArray\<close> on
  \<open>[price, size]\<close> returns, and does what the Incremental strategy says: the effective
  size is the matching level's size plus the delta's, or the delta's when no level
  matches; when positive it overwrites in place or inserts, otherwise it removes the
  matching level or changes nothing. The result keeps the three properties. On an ask
  side, \<open>(10, 5)\<close> then \<open>(10, -3)\<close> gives the single level \<open>(10, 2)\<close>, and \<open>(10, -2)\<close>
  then leaves the store empty.
\<close>

theorem incremental_strategy:
  assumes strict: "strictly_ascending (self_index self)"
    and keyed: "keyed self" and sized: "sized self"
  shows "Incremental_storeArray self [VNum price, VNum sz]
           = Inr (incremental_apply self price sz)
       \<and> strictly_ascending (self_index (incremental_apply self price sz))
       \<and> keyed (incremental_apply self price sz)
       \<and> sized (incremental_apply self price sz)
       \<and> init Incremental False [[VNum 10, VNum 5], [VNum 10, VNum (- 3)]] None
           = Inr incremental_asks_10_2
       \<and> Incremental_storeArray incremental_asks_10_2 [VNum 10, VNum (- 2)]
           = Inr incremental_asks_empty"
proof -
  have asc: "ascending (self_index self)"
    using strict by (rule strictly_ascending_ascending)
  have run: "Incremental_storeArray self [VNum price, VNum sz]
               = Inr (incremental_apply self price sz)"
    using asc keyed sized by (rule Incremental_storeArray_incremental_apply)
  have "strictly_ascending (self_index (incremental_apply self price sz))"
    using Incremental_storeArray_index [OF strict, of price "[VNum sz]"] run by simp
  moreover have "keyed (incremental_apply self price sz)"
    using asc keyed by (rule keyed_incremental_apply)
  moreover have "sized (incremental_apply self price sz)"
    using asc keyed sized by (rule sized_incremental_apply)
  moreover have "init Incremental False [[VNum 10, VNum 5], [VNum 10, VNum (- 3)]] None
                   = Inr incremental_asks_10_2"
    by (simp add: init_def new_side_def self_storeArray_def Incremental_storeArray_def
          attempt_def py_get_def py_set_def py_insert_def signed_price_def index_matches_def
          insert_both_def bisect_left_def bisect_loop.simps incremental_asks_10_2_def
          maxsize_def Let_def)
  moreover have "Incremental_storeArray incremental_asks_10_2 [VNum 10, VNum (- 2)]
                   = Inr incremental_asks_empty"
    by (simp add: new_side_def Incremental_storeArray_def attempt_def py_get_def py_del_def
          signed_price_def index_matches_def del_both_def bisect_left_def bisect_loop.simps
          incremental_asks_10_2_def incremental_asks_empty_def maxsize_def Let_def)
  ultimately show ?thesis using run by simp
qed

theorem incremental_strategy_witness:
  "strictly_ascending (self_index incremental_asks_10_2)
   \<and> keyed incremental_asks_10_2 \<and> sized incremental_asks_10_2
   \<and> Incremental_storeArray incremental_asks_10_2 [VNum 10, VNum 3]
       = Inr (incremental_asks_10_2\<lparr>self_list := [[VNum 10, VNum 5]]\<rparr>)
   \<and> Incremental_storeArray incremental_asks_10_2 [VNum 12, VNum 4]
       = Inr (incremental_asks_10_2\<lparr>self_list := [[VNum 10, VNum 2], [VNum 12, VNum 4]],
                                     self_index := [VNum 10, VNum 12]\<rparr>)
   \<and> Incremental_storeArray incremental_asks_10_2 [VNum 10, VNum (- 7)]
       = Inr (incremental_asks_10_2\<lparr>self_list := [], self_index := []\<rparr>)
   \<and> Incremental_storeArray incremental_asks_10_2 [VNum 12, VNum (- 4)]
       = Inr incremental_asks_10_2"
proof -
  have h: "strictly_ascending (self_index incremental_asks_10_2)"
    "keyed incremental_asks_10_2" "sized incremental_asks_10_2"
    by (simp_all add: incremental_asks_10_2_def strictly_ascending_def keyed_def sized_def
          signed_price_def)
  have a: "incremental_apply incremental_asks_10_2 10 3
             = incremental_asks_10_2\<lparr>self_list := [[VNum 10, VNum 5]]\<rparr>"
    and b: "incremental_apply incremental_asks_10_2 12 4
             = incremental_asks_10_2\<lparr>self_list := [[VNum 10, VNum 2], [VNum 12, VNum 4]],
                                       self_index := [VNum 10, VNum 12]\<rparr>"
    and c: "incremental_apply incremental_asks_10_2 10 (- 7)
             = incremental_asks_10_2\<lparr>self_list := [], self_index := []\<rparr>"
    and d: "incremental_apply incremental_asks_10_2 12 (- 4) = incremental_asks_10_2"
    by (simp_all add: incremental_apply_def incremental_asks_10_2_def price_key_def
          insertion_point_def)
  from incremental_strategy [OF h, of 10 3] incremental_strategy [OF h, of 12 4]
    incremental_strategy [OF h, of 10 "- 7"] incremental_strategy [OF h, of 12 "- 4"] h
  show ?thesis unfolding a b c d by simp
qed

subsection \<open>A stated price of zero\<close>

text \<open>
  Claim C10. In the indexed classes, for an order id already in the map and a nonzero
  size, a delta whose price is exactly 0 is handled as one whose price is \<open>None\<close>:
  \<open>index_price or old_price\<close> takes the old key, since a key of 0 is falsy. Both
  classes return the same result for the two deltas. On an ascending index that holds
  the old key, \<open>IndexedOrderBookSide\<close> replaces the level at the old key's position by
  the delta with its price recovered as the absolute value of the old key; and
  \<open>IncrementalIndexedOrderBookSide\<close>, for a numeric size, replaces that level by the
  delta with the recovered price and the sum of the two sizes when the delta's size and
  the sum are positive, and otherwise removes that level and the order id.
\<close>

theorem zero_price_is_unknown_price:
  assumes known: "self_hashmap self order_id = Some (VNum old_key)"
    and nonzero: "py_truthy sz"
  shows "Indexed_storeArray self [VNum 0, sz, order_id]
           = Indexed_storeArray self [VNone, sz, order_id]
       \<and> IncrementalIndexed_storeArray self [VNum 0, sz, order_id]
           = IncrementalIndexed_storeArray self [VNone, sz, order_id]
       \<and> (ascending (self_index self) \<and> VNum old_key \<in> set (self_index self)
            \<and> length (self_list self) = length (self_index self) \<longrightarrow>
          Indexed_storeArray self [VNum 0, sz, order_id]
            = Inr (self\<lparr>self_list := (self_list self)
                     [insertion_point (self_index self) old_key
                        := [VNum \<bar>old_key\<bar>, sz, order_id]]\<rparr>))
       \<and> (ascending (self_index self) \<and> VNum old_key \<in> set (self_index self)
            \<and> length (self_list self) = length (self_index self)
            \<and> sz = VNum s
            \<and> 2 \<le> length (self_list self ! insertion_point (self_index self) old_key)
            \<and> self_list self ! insertion_point (self_index self) old_key ! 1
                = VNum level_size \<longrightarrow>
          IncrementalIndexed_storeArray self [VNum 0, sz, order_id]
            = Inr (if 0 < s \<and> 0 < s + level_size then
                     self\<lparr>self_list := (self_list self)
                            [insertion_point (self_index self) old_key
                               := [VNum \<bar>old_key\<bar>, VNum (s + level_size), order_id]]\<rparr>
                   else
                     self\<lparr>self_list :=
                            take (insertion_point (self_index self) old_key) (self_list self)
                            @ drop (Suc (insertion_point (self_index self) old_key))
                                (self_list self),
                          self_index :=
                            take (insertion_point (self_index self) old_key) (self_index self)
                            @ drop (Suc (insertion_point (self_index self) old_key))
                                (self_index self),
                          self_hashmap := (self_hashmap self)(order_id := None)\<rparr>))"
proof (intro conjI impI)
  show "Indexed_storeArray self [VNum 0, sz, order_id]
          = Indexed_storeArray self [VNone, sz, order_id]"
    using known
    by (simp add: Indexed_storeArray_def attempt_def py_get_def py_set_def indexed_price_def
          signed_price_def py_or_def Let_def)
next
  show "IncrementalIndexed_storeArray self [VNum 0, sz, order_id]
          = IncrementalIndexed_storeArray self [VNone, sz, order_id]"
  proof (cases "py_gt0 sz")
    case (Inl e)
    then show ?thesis
      by (simp add: IncrementalIndexed_storeArray_def attempt_def py_get_def
            indexed_price_def signed_price_def)
  next
    case (Inr positive)
    have "incremental_block self [VNum 0, sz, order_id] (VNum 0) sz (VNum old_key)
            = incremental_block self [VNone, sz, order_id] VNone sz (VNum old_key)"
      by (simp add: incremental_block_def py_or_def py_set_def Let_def split: sum.splits)
    with known Inr show ?thesis
      by (cases positive)
         (simp_all add: IncrementalIndexed_storeArray_def attempt_def
            py_get_def indexed_price_def signed_price_def)
  qed
next
  let ?i = "insertion_point (self_index self) old_key"
  assume a: "ascending (self_index self) \<and> VNum old_key \<in> set (self_index self)
               \<and> length (self_list self) = length (self_index self)"
  then have i: "?i < length (self_index self)" "self_index self ! ?i = VNum old_key"
    using match_iff_stored [of "self_index self" old_key] by simp_all
  then have upd: "(self_index self)[?i := VNum old_key] = self_index self"
    by (metis list_update_id)
  from a have b: "bisect_left (self_index self) (VNum old_key) = Inr ?i"
    by (simp add: bisect_left_ascending)
  show "Indexed_storeArray self [VNum 0, sz, order_id]
          = Inr (self\<lparr>self_list := (self_list self)[?i := [VNum \<bar>old_key\<bar>, sz, order_id]]\<rparr>)"
    using known nonzero a i b upd
    by (simp add: Indexed_storeArray_def attempt_def py_get_def py_set_def indexed_price_def
          signed_price_def py_or_def Let_def)
next
  let ?i = "insertion_point (self_index self) old_key"
  let ?ls = "self_list self" and ?ix = "self_index self"
  assume a: "ascending ?ix \<and> VNum old_key \<in> set ?ix \<and> length ?ls = length ?ix
               \<and> sz = VNum s \<and> 2 \<le> length (?ls ! ?i) \<and> ?ls ! ?i ! 1 = VNum level_size"
  then have i: "?i < length ?ix" "?ix ! ?i = VNum old_key"
    using match_iff_stored [of ?ix old_key] by simp_all
  then have upd: "?ix[?i := VNum old_key] = ?ix"
    by (metis list_update_id)
  from a i have l: "?i < length ?ls" by simp
  from a have b: "bisect_left ?ix (VNum old_key) = Inr ?i"
    by (simp add: bisect_left_ascending)
  from a have sz: "sz = VNum s" and lv: "2 \<le> length (?ls ! ?i)" "?ls ! ?i ! 1 = VNum level_size"
    by simp_all
  from nonzero sz have s0: "s \<noteq> 0" by simp
  have removal: "remove_known self order_id (VNum old_key)
      = Inr (self\<lparr>self_list := take ?i ?ls @ drop (Suc ?i) ?ls,
                  self_index := take ?i ?ix @ drop (Suc ?i) ?ix,
                  self_hashmap := (self_hashmap self)(order_id := None)\<rparr>)"
    using b i l by (simp add: remove_known_def del_both_def attempt_def py_del_def)
  show "IncrementalIndexed_storeArray self [VNum 0, sz, order_id]
      = Inr (if 0 < s \<and> 0 < s + level_size then
               self\<lparr>self_list := ?ls[?i := [VNum \<bar>old_key\<bar>, VNum (s + level_size), order_id]]\<rparr>
             else
               self\<lparr>self_list := take ?i ?ls @ drop (Suc ?i) ?ls,
                    self_index := take ?i ?ix @ drop (Suc ?i) ?ix,
                    self_hashmap := (self_hashmap self)(order_id := None)\<rparr>)"
  proof (cases "0 < s")
    case False
    with known removal sz show ?thesis
      by (simp add: IncrementalIndexed_storeArray_def attempt_Inr py_get_def
            indexed_price_def price_key_def Let_def)
  next
    case True
    have block: "incremental_block self [VNum 0, VNum s, order_id] (VNum 0) (VNum s)
                   (VNum old_key)
        = Inr (VNum old_key, VNum old_key, Some ?i, VNum (s + level_size),
               [VNum \<bar>old_key\<bar>, VNum (s + level_size), order_id])"
      using b l lv
      by (simp add: incremental_block_def py_or_def py_get_def py_set_def Let_def)
    show ?thesis
    proof (cases "0 < s + level_size")
      case pos: True
      with True known block sz i l upd show ?thesis
        by (simp add: IncrementalIndexed_storeArray_def attempt_Inr py_get_def py_set_def
              indexed_price_def price_key_def Let_def)
    next
      case False
      with True known block removal sz show ?thesis
        by (simp add: IncrementalIndexed_storeArray_def attempt_Inr py_get_def
              indexed_price_def price_key_def Let_def)
    qed
  qed
qed

theorem zero_price_is_unknown_price_witness:
  "self_hashmap indexed_asks_A (VStr ''A'') = Some (VNum 100) \<and> py_truthy (VNum 7)
   \<and> ascending (self_index indexed_asks_A)
   \<and> VNum 100 \<in> set (self_index indexed_asks_A)
   \<and> length (self_list indexed_asks_A) = length (self_index indexed_asks_A)
   \<and> Indexed_storeArray indexed_asks_A [VNum 0, VNum 7, VStr ''A'']
       = Inr (indexed_asks_A\<lparr>self_list := [[VNum 100, VNum 7, VStr ''A'']]\<rparr>)
   \<and> self_hashmap incremental_indexed_bids_A (VStr ''A'') = Some (VNum (- 100))
   \<and> ascending (self_index incremental_indexed_bids_A)
   \<and> VNum (- 100) \<in> set (self_index incremental_indexed_bids_A)
   \<and> length (self_list incremental_indexed_bids_A)
       = length (self_index incremental_indexed_bids_A)
   \<and> 2 \<le> length (self_list incremental_indexed_bids_A ! 0)
   \<and> self_list incremental_indexed_bids_A ! 0 ! 1 = VNum 5
   \<and> IncrementalIndexed_storeArray incremental_indexed_bids_A [VNum 0, VNum 7, VStr ''A'']
       = Inr (incremental_indexed_bids_A\<lparr>self_list := [[VNum 100, VNum 12, VStr ''A'']]\<rparr>)
   \<and> py_truthy (VNum (- 7))
   \<and> IncrementalIndexed_storeArray incremental_indexed_bids_A
         [VNum 0, VNum (- 7), VStr ''A'']
       = Inr (incremental_indexed_bids_A\<lparr>self_list := [], self_index := [],
                self_hashmap := [VStr ''A'' \<mapsto> VNum (- 100)](VStr ''A'' := None)\<rparr>)"
  using zero_price_is_unknown_price
          [where self = indexed_asks_A and order_id = "VStr ''A''" and old_key = 100
             and sz = "VNum 7", THEN conjunct2, THEN conjunct2, THEN conjunct1]
        zero_price_is_unknown_price
          [where self = incremental_indexed_bids_A and order_id = "VStr ''A''"
             and old_key = "- 100" and sz = "VNum 7" and s = 7 and level_size = 5,
           THEN conjunct2, THEN conjunct2, THEN conjunct2]
        zero_price_is_unknown_price
          [where self = incremental_indexed_bids_A and order_id = "VStr ''A''"
             and old_key = "- 100" and sz = "VNum (- 7)" and s = "- 7" and level_size = 5,
           THEN conjunct2, THEN conjunct2, THEN conjunct2]
  by (simp add: indexed_asks_A_def incremental_indexed_bids_A_def ascending_def
        insertion_point_def)

end
